theory Spec2Isabelle
  imports Main "HOL-Library.Word"
begin

unbundle bit_operations_syntax

section \<open>The select() event multiplexer (src/server/ev/select.cpp)\<close>

subsection \<open>Types\<close>

text \<open>
  The non-WIN32 build is modelled: it is the one that carries the per-direction
  bookkeeping \<open>nfds_r\<close>, \<open>nfds_w\<close>, \<open>nfds_e\<close> and the ordered sets
  \<open>read_set\<close>, \<open>write_set\<close>, \<open>error_set\<close>.

  A descriptor \<open>fd_t\<close> is a C \<open>int\<close>; the only arithmetic on it is \<open>ubnfds+1\<close>,
  so it is modelled as \<open>int\<close>. An event mask \<open>ev_t\<close> is an unsigned 32-bit
  value. An \<open>fd_set\<close> and a \<open>std::set<fd_t>\<close> are sets of descriptors; the
  \<open>std::map<fd_t,uint>\<close> \<open>fd_list\<close> is an association list kept in ascending key
  order, which is the order a \<open>std::map\<close> iterator walks.
\<close>

type_synonym fd_t = int
type_synonym ev_t = "32 word"
type_synonym uint = "32 word"

record timeval =
  tv_sec :: int
  tv_usec :: int

text \<open>The error codes of \<open><cerrno>\<close> that \<open>wait\<close> names, and any other code.\<close>

datatype errno = EINTR | EBADF | ENOTSOCK | EINVAL | EFAULT | ENOMEM | OtherErrno nat

text \<open>
  A \<open>std::map\<close> iterator: default-constructed (singular: it may not be
  dereferenced or compared), at the entry with a given key, or past the end.
\<close>

datatype fd_iterator = Singular | At fd_t | End

record EventSelect =
  nfds_r :: fd_t
  nfds_w :: fd_t
  nfds_e :: fd_t
  fds_r :: "fd_t set"
  fds_w :: "fd_t set"
  fds_e :: "fd_t set"
  t_fds_r :: "fd_t set"
  t_fds_w :: "fd_t set"
  t_fds_e :: "fd_t set"
  read_set :: "fd_t set"
  write_set :: "fd_t set"
  error_set :: "fd_t set"
  fd_list :: "(fd_t \<times> uint) list"
  fd_iter :: fd_iterator
  nfds :: int
  error :: errno
  timeout_tv :: timeval

text \<open>What ends a call without a return value: a failed \<open>assert\<close>, or the use of a
  singular iterator (undefined behaviour in C++).\<close>

datatype failure = AssertionFailed | SingularIteratorUsed

subsection \<open>Constants and helpers declared in select.h\<close>

text \<open>
  Modelled from the spec: \<open>event_invalid_fd<EventSelect>::value\<close> is declared in
  select.h, which is not among the sources; the spec calls it "the sentinel invalid
  value". On the non-WIN32 build a descriptor is an \<open>int\<close> and the invalid descriptor
  is \<open>-1\<close>.
\<close>

definition event_invalid_fd :: fd_t where
  "event_invalid_fd = - 1"

definition event_read :: ev_t where "event_read = 1"
definition event_write :: ev_t where "event_write = 2"
definition event_error :: ev_t where "event_error = 4"

text \<open>
  Modelled from the spec: the flag helpers \<open>fIsSet\<close> and \<open>fSet\<close> are declared in a
  header that is not among the sources. \<open>fIsSet(x, f)\<close> tests that all bits of \<open>f\<close>
  are set in \<open>x\<close>; \<open>fSet(x, f)\<close> sets the bits of \<open>f\<close> in \<open>x\<close>. The three event flags
  are single bits, for which "all bits set" and "some bit set" coincide.
\<close>

definition fIsSet :: "ev_t \<Rightarrow> ev_t \<Rightarrow> bool" where
  "fIsSet x f = (x AND f = f)"

definition fSet :: "ev_t \<Rightarrow> ev_t \<Rightarrow> ev_t" where
  "fSet x f = x OR f"

subsection \<open>Construction\<close>

text \<open>
  The constructor initialises \<open>nfds_r\<close>, \<open>nfds_w\<close>, \<open>nfds_e\<close> and zeroes the three
  interest sets; the containers are default-constructed (empty, singular iterator). The
  members \<open>t_fds_*\<close>, \<open>nfds\<close>, \<open>error\<close> and \<open>_timeout\<close> are left uninitialised: they
  keep whatever the argument \<open>u\<close> holds.
\<close>

definition EventSelect_new :: "EventSelect \<Rightarrow> EventSelect" where
  "EventSelect_new u =
     u\<lparr>nfds_r := event_invalid_fd, nfds_w := event_invalid_fd, nfds_e := event_invalid_fd,
       fds_r := {}, fds_w := {}, fds_e := {},
       read_set := {}, write_set := {}, error_set := {},
       fd_list := [], fd_iter := Singular\<rparr>"

subsection \<open>timeout\<close>

text \<open>
  \<open>msecs\<close> is a \<open>uint\<close>; \<open>tv_sec\<close> and \<open>tv_usec\<close> are signed longs. The division,
  the subtraction and the multiplication are done as the source does them, the unsigned
  ones modulo \<open>2^32\<close>.
\<close>

definition timeout :: "uint \<Rightarrow> EventSelect \<Rightarrow> EventSelect" where
  "timeout msecs s =
     (if msecs > 1000
      then
        let sec = uint (msecs div 1000);
            msecs' = (word_of_int (uint msecs - sec * 1000) :: uint)
        in s\<lparr>timeout_tv := \<lparr>tv_sec = sec, tv_usec = uint (msecs' * 1000)\<rparr>\<rparr>
      else s\<lparr>timeout_tv := \<lparr>tv_sec = 0, tv_usec = uint (msecs * 1000)\<rparr>\<rparr>)"

subsection \<open>Container operations\<close>

text \<open>\<open>fd_list[fd] = events\<close>: insert the key in order, or overwrite its value.\<close>

fun map_assign :: "fd_t \<Rightarrow> uint \<Rightarrow> (fd_t \<times> uint) list \<Rightarrow> (fd_t \<times> uint) list" where
  "map_assign k v [] = [(k, v)]"
| "map_assign k v ((k', v') # xs) =
     (if k < k' then (k, v) # (k', v') # xs
      else if k = k' then (k, v) # xs
      else (k', v') # map_assign k v xs)"

text \<open>\<open>fd_list.erase(iter)\<close> for the iterator that \<open>fd_list.find(fd)\<close> returned.\<close>

fun map_erase :: "fd_t \<Rightarrow> (fd_t \<times> uint) list \<Rightarrow> (fd_t \<times> uint) list" where
  "map_erase k [] = []"
| "map_erase k ((k', v') # xs) = (if k = k' then xs else (k', v') # map_erase k xs)"

definition map_keys :: "(fd_t \<times> uint) list \<Rightarrow> fd_t list" where
  "map_keys xs = map fst xs"

text \<open>\<open>begin()\<close>: at the first entry, or \<open>end()\<close> for an empty map.\<close>

fun map_begin :: "(fd_t \<times> uint) list \<Rightarrow> fd_iterator" where
  "map_begin [] = End"
| "map_begin ((k, v) # xs) = At k"

text \<open>The entries from an iterator to the end, in iteration order.\<close>

fun map_from :: "fd_iterator \<Rightarrow> (fd_t \<times> uint) list \<Rightarrow> (fd_t \<times> uint) list option" where
  "map_from Singular xs = None"
| "map_from End xs = Some []"
| "map_from (At k) xs = Some (dropWhile (\<lambda>e. fst e \<noteq> k) xs)"

text \<open>\<open>(S.size() > 0 ? *(--S.end()) : event_invalid_fd)\<close>: the greatest element of an
  ordered set, or the sentinel.\<close>

definition set_back :: "fd_t set \<Rightarrow> fd_t" where
  "set_back S = (if S \<noteq> {} then Max S else event_invalid_fd)"

subsection \<open>add\<close>

definition add :: "fd_t \<Rightarrow> ev_t \<Rightarrow> EventSelect \<Rightarrow> failure + (int \<times> EventSelect)" where
  "add fd events s =
     (if fd = event_invalid_fd then Inl AssertionFailed
      else
        let (rc1, s1) =
              (if fIsSet events event_read
               then (True, s\<lparr>fds_r := insert fd (fds_r s),
                              read_set := insert fd (read_set s),
                              nfds_r := (if fd > nfds_r s then fd else nfds_r s)\<rparr>)
               else (False, s));
            (rc2, s2) =
              (if fIsSet events event_write
               then (True, s1\<lparr>fds_w := insert fd (fds_w s1),
                               write_set := insert fd (write_set s1),
                               nfds_w := (if fd > nfds_w s1 then fd else nfds_w s1)\<rparr>)
               else (rc1, s1));
            (rc3, s3) =
              (if fIsSet events event_error
               then (True, s2\<lparr>fds_e := insert fd (fds_e s2),
                               error_set := insert fd (error_set s2),
                               nfds_e := (if fd > nfds_e s2 then fd else nfds_e s2)\<rparr>)
               else (rc2, s2))
        in if \<not> rc3 then Inl AssertionFailed
           else Inr (1, s3\<lparr>fd_list := map_assign fd events (fd_list s3)\<rparr>))"

subsection \<open>modify and remove\<close>

text \<open>
  The block \<open>FD_CLR(fd, &fds_r); read_set.erase(fd); if (fd == nfds_r) nfds_r = ...\<close>
  stands three times in \<open>modify\<close> and three times in \<open>remove\<close>, once per direction.
\<close>

definition clear_read :: "fd_t \<Rightarrow> EventSelect \<Rightarrow> EventSelect" where
  "clear_read fd s =
     (let rs = read_set s - {fd}
      in s\<lparr>fds_r := fds_r s - {fd}, read_set := rs,
           nfds_r := (if fd = nfds_r s then set_back rs else nfds_r s)\<rparr>)"

definition clear_write :: "fd_t \<Rightarrow> EventSelect \<Rightarrow> EventSelect" where
  "clear_write fd s =
     (let ws = write_set s - {fd}
      in s\<lparr>fds_w := fds_w s - {fd}, write_set := ws,
           nfds_w := (if fd = nfds_w s then set_back ws else nfds_w s)\<rparr>)"

definition clear_error :: "fd_t \<Rightarrow> EventSelect \<Rightarrow> EventSelect" where
  "clear_error fd s =
     (let es = error_set s - {fd}
      in s\<lparr>fds_e := fds_e s - {fd}, error_set := es,
           nfds_e := (if fd = nfds_e s then set_back es else nfds_e s)\<rparr>)"

definition modify :: "fd_t \<Rightarrow> ev_t \<Rightarrow> EventSelect \<Rightarrow> failure + (int \<times> EventSelect)" where
  "modify fd events s =
     (if fd = event_invalid_fd then Inl AssertionFailed
      else
        case (if events \<noteq> 0 then add fd events s else Inr (0, s)) of
          Inl f \<Rightarrow> Inl f
        | Inr (_, s0) \<Rightarrow>
            let s1 = (if \<not> fIsSet events event_read then clear_read fd s0 else s0);
                s2 = (if \<not> fIsSet events event_write then clear_write fd s1 else s1);
                s3 = (if \<not> fIsSet events event_error then clear_error fd s2 else s2)
            in Inr (0, s3))"

definition remove :: "fd_t \<Rightarrow> EventSelect \<Rightarrow> failure + (int \<times> EventSelect)" where
  "remove fd s =
     (if fd = event_invalid_fd then Inl AssertionFailed
      else if fd \<notin> set (map_keys (fd_list s)) then Inl AssertionFailed
      else
        let s1 = clear_read fd s;
            s2 = clear_write fd s1;
            s3 = clear_error fd s2;
            l = map_erase fd (fd_list s3)
        in Inr (1, s3\<lparr>fd_list := l, fd_iter := map_begin l\<rparr>))"

subsection \<open>wait\<close>

text \<open>
  \<open>select()\<close> is the operating system's: it is a parameter of \<open>wait\<close>. It is
  called with the upper bound, the three working sets and the timeout; it returns a
  count (or \<open>-1\<close> and an error code in \<open>errno\<close>) and overwrites the working sets and,
  on some systems, the timeout.
\<close>

record select_result =
  sel_ret :: int
  sel_errno :: errno
  sel_r :: "fd_t set"
  sel_w :: "fd_t set"
  sel_e :: "fd_t set"
  sel_timeout :: timeval

type_synonym select_fn =
  "int \<Rightarrow> fd_t set \<Rightarrow> fd_t set \<Rightarrow> fd_t set \<Rightarrow> timeval \<Rightarrow> select_result"

definition select_bound :: "EventSelect \<Rightarrow> int" where
  "select_bound s =
     (let ubnfds = max (max (nfds_w s) (nfds_r s)) (nfds_e s)
      in if ubnfds = event_invalid_fd then event_invalid_fd else ubnfds + 1)"

text \<open>The three \<open>memcpy\<close> calls: the interest sets are copied into the working sets.\<close>

definition copy_sets :: "EventSelect \<Rightarrow> EventSelect" where
  "copy_sets s = s\<lparr>t_fds_r := fds_r s, t_fds_w := fds_w s, t_fds_e := fds_e s\<rparr>"

text \<open>The call \<open>select(bound, &t_fds_r, &t_fds_w, &t_fds_e, &_timeout)\<close> and its result.\<close>

definition select_call :: "select_fn \<Rightarrow> EventSelect \<Rightarrow> select_result" where
  "select_call select s =
     select (select_bound s) (t_fds_r s) (t_fds_w s) (t_fds_e s) (timeout_tv s)"

definition wait :: "select_fn \<Rightarrow> EventSelect \<Rightarrow> failure + (int \<times> EventSelect)" where
  "wait select s =
     (let s1 = copy_sets s;
          res = select_call select s1;
          s2 = s1\<lparr>t_fds_r := sel_r res, t_fds_w := sel_w res, t_fds_e := sel_e res,
                  timeout_tv := sel_timeout res, nfds := sel_ret res\<rparr>
      in if nfds s2 = - 1 then
           let s3 = s2\<lparr>error := sel_errno res\<rparr>
           in if error s3 = EINTR then Inr (0, s3\<lparr>nfds := 0\<rparr>)
              else if error s3 = EBADF then Inl AssertionFailed
              else if error s3 = ENOTSOCK then Inl AssertionFailed
              else if error s3 = EINVAL then Inl AssertionFailed
              else if error s3 = EFAULT then Inl AssertionFailed
              else Inr (nfds s3, s3)
         else if nfds s2 = 0 then Inr (nfds s2, s2)
         else Inr (nfds s2, s2\<lparr>fd_iter := map_begin (fd_list s2)\<rparr>))"

text \<open>
  What POSIX promises of a successful \<open>select()\<close>: the sets it leaves hold only
  descriptors that were passed in, and the return value is the total number of bits set
  in the three sets (a descriptor ready in two directions counts twice).
\<close>

definition select_ok :: "select_fn \<Rightarrow> EventSelect \<Rightarrow> bool" where
  "select_ok select s \<longleftrightarrow>
     (let res = select_call select s
      in sel_r res \<subseteq> t_fds_r s \<and> sel_w res \<subseteq> t_fds_w s \<and> sel_e res \<subseteq> t_fds_e s \<and>
         sel_ret res = int (card (sel_r res) + card (sel_w res) + card (sel_e res)))"

subsection \<open>getEvent\<close>

text \<open>
  \<open>satisfied\<close> is the body of the loop: the mask of the directions in which the working
  sets hold the descriptor. \<open>getEvent_loop\<close> is the \<open>while\<close> loop over the entries from
  \<open>fd_iter\<close> to the end. \<open>fd\<close> and \<open>events\<close> are the reference parameters: they keep the
  values of the last entry looked at. The result is the return value, the two reference
  parameters and the iterator.
\<close>

definition satisfied :: "EventSelect \<Rightarrow> fd_t \<Rightarrow> ev_t" where
  "satisfied s fd =
     (let e0 = 0;
          e1 = (if fd \<in> t_fds_r s then fSet e0 event_read else e0);
          e2 = (if fd \<in> t_fds_w s then fSet e1 event_write else e1);
          e3 = (if fd \<in> t_fds_e s then fSet e2 event_error else e2)
      in e3)"

fun getEvent_loop ::
  "EventSelect \<Rightarrow> (fd_t \<times> uint) list \<Rightarrow> fd_t \<Rightarrow> ev_t \<Rightarrow> bool \<times> fd_t \<times> ev_t \<times> fd_iterator" where
  "getEvent_loop s [] fd events = (False, fd, events, End)"
| "getEvent_loop s ((k, v) # rest) fd events =
     (let fd' = k;
          events' = satisfied s fd'
      in if events' \<noteq> 0 then (True, fd', events', map_begin rest)
         else getEvent_loop s rest fd' events')"

definition getEvent ::
  "fd_t \<Rightarrow> ev_t \<Rightarrow> EventSelect \<Rightarrow> failure + (bool \<times> fd_t \<times> ev_t \<times> EventSelect)" where
  "getEvent fd events s =
     (if \<not> length (fd_list s) > 0 then Inl AssertionFailed
      else
        case map_from (fd_iter s) (fd_list s) of
          None \<Rightarrow> Inl SingularIteratorUsed
        | Some rest \<Rightarrow>
            (case getEvent_loop s rest fd events of
               (b, fd', events', it) \<Rightarrow> Inr (b, fd', events', s\<lparr>fd_iter := it\<rparr>)))"

subsection \<open>Sequences of calls\<close>

datatype op = Add fd_t ev_t | Modify fd_t ev_t | Remove fd_t


fun step :: "op \<Rightarrow> EventSelect \<Rightarrow> failure + EventSelect" where
  "step (Add fd events) s = map_sum id snd (add fd events s)"
| "step (Modify fd events) s = map_sum id snd (modify fd events s)"
| "step (Remove fd) s = map_sum id snd (remove fd s)"

fun run_ops :: "op list \<Rightarrow> EventSelect \<Rightarrow> failure + EventSelect" where
  "run_ops [] s = Inr s"
| "run_ops (x # xs) s = (case step x s of Inl f \<Rightarrow> Inl f | Inr s' \<Rightarrow> run_ops xs s')"

text \<open>\<open>n\<close> successive calls of \<open>getEvent\<close>, each given the reference parameters as the
  call before left them; the results of the calls, in order.\<close>

fun getEvents ::
  "nat \<Rightarrow> fd_t \<Rightarrow> ev_t \<Rightarrow> EventSelect \<Rightarrow> failure + ((bool \<times> fd_t \<times> ev_t) list \<times> EventSelect)" where
  "getEvents 0 fd events s = Inr ([], s)"
| "getEvents (Suc n) fd events s =
     (case getEvent fd events s of
        Inl f \<Rightarrow> Inl f
      | Inr (b, fd', events', s') \<Rightarrow>
          (case getEvents n fd' events' s' of
             Inl f \<Rightarrow> Inl f
           | Inr (rs, s'') \<Rightarrow> Inr ((b, fd', events') # rs, s'')))"

text \<open>A concrete content for the members the constructor leaves uninitialised.\<close>

definition zeroed :: EventSelect where
  "zeroed = \<lparr>nfds_r = 0, nfds_w = 0, nfds_e = 0, fds_r = {}, fds_w = {}, fds_e = {},
     t_fds_r = {}, t_fds_w = {}, t_fds_e = {},
     read_set = {}, write_set = {}, error_set = {},
     fd_list = [], fd_iter = Singular, nfds = 0, error = OtherErrno 0,
     timeout_tv = \<lparr>tv_sec = 0, tv_usec = 0\<rparr>\<rparr>"

subsection \<open>The registrations a sequence of calls leaves\<close>



fun registered_step :: "fd_t set \<Rightarrow> op \<Rightarrow> fd_t set" where
  "registered_step K (Add fd events) = insert fd K"
| "registered_step K (Modify fd events) = (if events \<noteq> 0 then insert fd K else K)"
| "registered_step K (Remove fd) = K - {fd}"

definition registered :: "op list \<Rightarrow> fd_t set" where
  "registered xs = foldl registered_step {} xs"

subsection \<open>Invariants of the registry\<close>

text \<open>
  For one direction: the ordered set \<open>S\<close> is finite and equal to the interest set \<open>F\<close>,
  its members are keys of \<open>fd_list\<close>, and the highest-descriptor field \<open>n\<close> is a member or
  the sentinel.
\<close>

definition dir_inv :: "fd_t set \<Rightarrow> fd_t set \<Rightarrow> fd_t \<Rightarrow> fd_t set \<Rightarrow> bool" where
  "dir_inv S F n K \<longleftrightarrow> finite S \<and> F = S \<and> S \<subseteq> K \<and> n \<in> insert event_invalid_fd S"


text \<open>For the three directions together; \<open>fd_list\<close> is in strictly ascending key order and
  holds no zero mask.\<close>

definition registry_inv :: "EventSelect \<Rightarrow> bool" where
  "registry_inv s \<longleftrightarrow>
     dir_inv (read_set s) (fds_r s) (nfds_r s) (set (map_keys (fd_list s))) \<and>
     dir_inv (write_set s) (fds_w s) (nfds_w s) (set (map_keys (fd_list s))) \<and>
     dir_inv (error_set s) (fds_e s) (nfds_e s) (set (map_keys (fd_list s))) \<and>
     sorted_wrt (<) (map_keys (fd_list s)) \<and>
     0 \<notin> snd ` set (fd_list s)"


subsection \<open>What a cycle yields\<close>

text \<open>The ready entries among \<open>rest\<close>, a part of \<open>fd_list\<close>: those whose satisfied mask is
  not empty, in order, each with its mask. \<open>ready_events\<close> are the ready entries of the
  whole of \<open>fd_list\<close>: what the \<open>getEvent\<close> calls after a \<open>wait\<close> are to yield.\<close>

definition ready_from :: "EventSelect \<Rightarrow> (fd_t \<times> uint) list \<Rightarrow> (fd_t \<times> ev_t) list" where
  "ready_from s rest =
     filter (\<lambda>p. snd p \<noteq> 0) (map (\<lambda>e. (fst e, satisfied s (fst e))) rest)"

definition ready_events :: "EventSelect \<Rightarrow> (fd_t \<times> ev_t) list" where
  "ready_events s =
     filter (\<lambda>p. snd p \<noteq> 0) (map (\<lambda>e. (fst e, satisfied s (fst e))) (fd_list s))"

subsection \<open>Stand-ins for the operating system\<close>

text \<open>A \<open>select()\<close> that fails with a given error code and leaves its arguments alone.\<close>

definition select_fails :: "errno \<Rightarrow> select_fn" where
  "select_fails e n r w x t =
     \<lparr>sel_ret = - 1, sel_errno = e, sel_r = r, sel_w = w, sel_e = x, sel_timeout = t\<rparr>"

text \<open>A \<open>select()\<close> for which the descriptors of \<open>R\<close> are readable, those of \<open>W\<close>
  writable and those of \<open>E\<close> in error: it keeps them in the working sets and returns the
  number of bits left set.\<close>

definition select_ready :: "fd_t set \<Rightarrow> fd_t set \<Rightarrow> fd_t set \<Rightarrow> select_fn" where
  "select_ready R W E n r w e t =
     \<lparr>sel_ret = int (card (r \<inter> R) + card (w \<inter> W) + card (e \<inter> E)), sel_errno = OtherErrno 0,
      sel_r = r \<inter> R, sel_w = w \<inter> W, sel_e = e \<inter> E, sel_timeout = t\<rparr>"

text \<open>One cycle on a fresh multiplexer: the registrations \<open>xs\<close>, one \<open>wait\<close>, then \<open>k\<close>
  calls of \<open>getEvent\<close>. The result is what \<open>wait\<close> returned and what the calls returned.\<close>

definition wait_cycle ::
  "op list \<Rightarrow> select_fn \<Rightarrow> nat \<Rightarrow> failure + (int \<times> (bool \<times> fd_t \<times> ev_t) list)" where
  "wait_cycle xs select k =
     (case run_ops xs (EventSelect_new zeroed) of
        Inl f \<Rightarrow> Inl f
      | Inr s \<Rightarrow>
          (case wait select s of
             Inl f \<Rightarrow> Inl f
           | Inr (n, s1) \<Rightarrow>
               (case getEvents k 0 0 s1 of
                  Inl f \<Rightarrow> Inl f
                | Inr (rs, s2) \<Rightarrow> Inr (n, rs))))"

section \<open>Messages and their reference-counting pointer (message.h)\<close>

subsection \<open>Message\<close>

text \<open>The enumeration \<open>MessageType\<close> and the values of its enumerators: the meta
  stream starts at 1 after \<open>MSG_LOGIN\<close>, the command stream at 128.\<close>

datatype MessageType =
    MSG_LOGIN
  | MSG_USER_JOIN | MSG_USER_ATTR | MSG_USER_LEAVE | MSG_CHAT | MSG_LAYER_ACL | MSG_SNAPSHOT
  | MSG_SESSION_TITLE | MSG_SESSION_CONFIG | MSG_STREAMPOS
  | MSG_CANVAS_RESIZE | MSG_LAYER_CREATE | MSG_LAYER_ATTR | MSG_LAYER_RETITLE
  | MSG_LAYER_ORDER | MSG_LAYER_DELETE | MSG_PUTIMAGE | MSG_TOOLCHANGE | MSG_PEN_MOVE
  | MSG_PEN_UP | MSG_ANNOTATION_CREATE | MSG_ANNOTATION_RESHAPE | MSG_ANNOTATION_EDIT
  | MSG_ANNOTATION_DELETE | MSG_UNDOPOINT | MSG_UNDO

fun MessageType_value :: "MessageType \<Rightarrow> nat" where
  "MessageType_value MSG_LOGIN = 0"
| "MessageType_value MSG_USER_JOIN = 1"
| "MessageType_value MSG_USER_ATTR = 2"
| "MessageType_value MSG_USER_LEAVE = 3"
| "MessageType_value MSG_CHAT = 4"
| "MessageType_value MSG_LAYER_ACL = 5"
| "MessageType_value MSG_SNAPSHOT = 6"
| "MessageType_value MSG_SESSION_TITLE = 7"
| "MessageType_value MSG_SESSION_CONFIG = 8"
| "MessageType_value MSG_STREAMPOS = 9"
| "MessageType_value MSG_CANVAS_RESIZE = 128"
| "MessageType_value MSG_LAYER_CREATE = 129"
| "MessageType_value MSG_LAYER_ATTR = 130"
| "MessageType_value MSG_LAYER_RETITLE = 131"
| "MessageType_value MSG_LAYER_ORDER = 132"
| "MessageType_value MSG_LAYER_DELETE = 133"
| "MessageType_value MSG_PUTIMAGE = 134"
| "MessageType_value MSG_TOOLCHANGE = 135"
| "MessageType_value MSG_PEN_MOVE = 136"
| "MessageType_value MSG_PEN_UP = 137"
| "MessageType_value MSG_ANNOTATION_CREATE = 138"
| "MessageType_value MSG_ANNOTATION_RESHAPE = 139"
| "MessageType_value MSG_ANNOTATION_EDIT = 140"
| "MessageType_value MSG_ANNOTATION_DELETE = 141"
| "MessageType_value MSG_UNDOPOINT = 142"
| "MessageType_value MSG_UNDO = 143"

text \<open>
  The concrete message classes are not among the sources. What a concrete class adds to
  the behaviour of the base class are its overrides of the virtual functions
  \<open>isOpCommand\<close>, \<open>isUndoable\<close> and \<open>payloadLength\<close>; \<open>Message_class\<close> holds what they
  return and is a parameter of every message. \<open>base_class\<close> is a class that overrides
  neither \<open>isOpCommand\<close> nor \<open>isUndoable\<close>, which both return false in \<open>Message\<close>.
\<close>

record Message_class =
  cls_isOpCommand :: bool
  cls_isUndoable :: bool
  cls_payloadLength :: int

record Message =
  m_type :: MessageType
  m_contextid :: "8 word"
  m_undone :: bool
  m_refcount :: int
  m_class :: Message_class

text \<open>The constructor: \<open>_undone(false)\<close>, \<open>_refcount(0)\<close>.\<close>

definition Message_new :: "MessageType \<Rightarrow> 8 word \<Rightarrow> Message_class \<Rightarrow> Message" where
  "Message_new t ctx c =
     \<lparr>m_type = t, m_contextid = ctx, m_undone = False, m_refcount = 0, m_class = c\<rparr>"

definition base_class :: "int \<Rightarrow> Message_class" where
  "base_class len = \<lparr>cls_isOpCommand = False, cls_isUndoable = False, cls_payloadLength = len\<rparr>"

definition Message_type :: "Message \<Rightarrow> MessageType" where
  "Message_type m = m_type m"

definition isCommand :: "Message \<Rightarrow> bool" where
  "isCommand m \<longleftrightarrow> MessageType_value (m_type m) \<ge> MessageType_value MSG_CANVAS_RESIZE"

definition payloadLength :: "Message \<Rightarrow> int" where
  "payloadLength m = cls_payloadLength (m_class m)"

definition Message_length :: "Message \<Rightarrow> int" where
  "Message_length m = 3 + payloadLength m"

definition contextId :: "Message \<Rightarrow> 8 word" where
  "contextId m = m_contextid m"

definition setContextId :: "8 word \<Rightarrow> Message \<Rightarrow> Message" where
  "setContextId userid m = m\<lparr>m_contextid := userid\<rparr>"

definition isOpCommand :: "Message \<Rightarrow> bool" where
  "isOpCommand m = cls_isOpCommand (m_class m)"

definition isUndoable :: "Message \<Rightarrow> bool" where
  "isUndoable m = cls_isUndoable (m_class m)"

definition isUndone :: "Message \<Rightarrow> bool" where
  "isUndone m = m_undone m"

definition setUndone :: "bool \<Rightarrow> Message \<Rightarrow> Message" where
  "setUndone undone m = (if isUndoable m then m\<lparr>m_undone := undone\<rparr> else m)"

text \<open>The public member functions that write a member, and a sequence of calls of
  them on one message. \<open>last_contextid\<close> follows the argument of the last
  \<open>setContextId\<close>, \<open>last_undone\<close> that of the last \<open>setUndone\<close>.\<close>

datatype Message_call = SetContextId "8 word" | SetUndone bool

fun Message_apply :: "Message \<Rightarrow> Message_call \<Rightarrow> Message" where
  "Message_apply m (SetContextId userid) = setContextId userid m"
| "Message_apply m (SetUndone undone) = setUndone undone m"

definition Message_calls :: "Message_call list \<Rightarrow> Message \<Rightarrow> Message" where
  "Message_calls cs m = foldl Message_apply m cs"

fun last_contextid :: "8 word \<Rightarrow> Message_call \<Rightarrow> 8 word" where
  "last_contextid c (SetContextId userid) = userid"
| "last_contextid c (SetUndone undone) = c"

fun last_undone :: "bool \<Rightarrow> Message_call \<Rightarrow> bool" where
  "last_undone u (SetContextId userid) = u"
| "last_undone u (SetUndone undone) = undone"

subsection \<open>MessagePtr\<close>

text \<open>
  Messages live in a heap, at addresses; address 0 is the null pointer. A \<open>MessagePtr\<close>
  object is named by a handle and holds one address (\<open>_ptr\<close>). \<open>deleted\<close> records every
  \<open>delete _ptr\<close>, in order. A call ends in a fault when a \<open>Q_ASSERT\<close> fails, when a
  pointer to no message is dereferenced, when a \<open>MessagePtr\<close> that is not alive is used or
  one that is alive is constructed again, when an address is allocated twice, or when the
  \<open>int\<close> \<open>_refcount\<close> would overflow.
\<close>

type_synonym addr = nat
type_synonym handle = nat

record store =
  heap :: "addr \<rightharpoonup> Message"
  handles :: "handle \<rightharpoonup> addr"
  deleted :: "addr list"

datatype fault = QAssertFailed | InvalidPointer | DeadHandle | HandleExists | AddressInUse
  | IntOverflow

definition empty_store :: store where
  "empty_store = \<lparr>heap = Map.empty, handles = Map.empty, deleted = []\<rparr>"

definition INT_MAX :: int where
  "INT_MAX = 2147483647"

text \<open>\<open>new\<close> of a message at a free address.\<close>

definition Message_alloc ::
  "addr \<Rightarrow> MessageType \<Rightarrow> 8 word \<Rightarrow> Message_class \<Rightarrow> store \<Rightarrow> fault + store" where
  "Message_alloc p t ctx c st =
     (if p = 0 \<or> heap st p \<noteq> None then Inl AddressInUse
      else Inr (st\<lparr>heap := (heap st)(p \<mapsto> Message_new t ctx c)\<rparr>))"

text \<open>\<open>explicit MessagePtr(Message *msg)\<close>.\<close>

definition MessagePtr_new :: "handle \<Rightarrow> addr \<Rightarrow> store \<Rightarrow> fault + store" where
  "MessagePtr_new h msg st =
     (if handles st h \<noteq> None then Inl HandleExists
      else if msg = 0 then Inl QAssertFailed
      else
        case heap st msg of
          None \<Rightarrow> Inl InvalidPointer
        | Some m \<Rightarrow>
            if m_refcount m \<noteq> 0 then Inl QAssertFailed
            else Inr (st\<lparr>heap := (heap st)(msg \<mapsto> m\<lparr>m_refcount := m_refcount m + 1\<rparr>),
                         handles := (handles st)(h \<mapsto> msg)\<rparr>))"

text \<open>\<open>MessagePtr(const MessagePtr &ptr)\<close>.\<close>

definition MessagePtr_copy :: "handle \<Rightarrow> handle \<Rightarrow> store \<Rightarrow> fault + store" where
  "MessagePtr_copy h ptr st =
     (if handles st h \<noteq> None then Inl HandleExists
      else
        case handles st ptr of
          None \<Rightarrow> Inl DeadHandle
        | Some p \<Rightarrow>
            (case heap st p of
               None \<Rightarrow> Inl InvalidPointer
             | Some m \<Rightarrow>
                 if m_refcount m = INT_MAX then Inl IntOverflow
                 else Inr (st\<lparr>heap := (heap st)(p \<mapsto> m\<lparr>m_refcount := m_refcount m + 1\<rparr>),
                              handles := (handles st)(h \<mapsto> p)\<rparr>)))"

text \<open>The lines \<open>Q_ASSERT(_ptr->_refcount>0); if(--_ptr->_refcount == 0) delete _ptr;\<close>
  of the destructor and of the assignment.\<close>

definition release :: "addr \<Rightarrow> store \<Rightarrow> fault + store" where
  "release p st =
     (case heap st p of
        None \<Rightarrow> Inl InvalidPointer
      | Some m \<Rightarrow>
          if \<not> m_refcount m > 0 then Inl QAssertFailed
          else if m_refcount m - 1 = 0
            then Inr (st\<lparr>heap := (heap st)(p := None), deleted := deleted st @ [p]\<rparr>)
            else Inr (st\<lparr>heap := (heap st)(p \<mapsto> m\<lparr>m_refcount := m_refcount m - 1\<rparr>)\<rparr>))"

text \<open>\<open>~MessagePtr()\<close>: the handle is gone afterwards.\<close>

definition MessagePtr_destroy :: "handle \<Rightarrow> store \<Rightarrow> fault + store" where
  "MessagePtr_destroy h st =
     (case handles st h of
        None \<Rightarrow> Inl DeadHandle
      | Some p \<Rightarrow>
          (case release p st of
             Inl f \<Rightarrow> Inl f
           | Inr st' \<Rightarrow> Inr (st'\<lparr>handles := (handles st')(h := None)\<rparr>)))"

text \<open>\<open>operator=(const MessagePtr &msg)\<close>.\<close>

definition MessagePtr_assign :: "handle \<Rightarrow> handle \<Rightarrow> store \<Rightarrow> fault + store" where
  "MessagePtr_assign h msg st =
     (case handles st h of
        None \<Rightarrow> Inl DeadHandle
      | Some p \<Rightarrow>
          (case handles st msg of
             None \<Rightarrow> Inl DeadHandle
           | Some q \<Rightarrow>
               if q \<noteq> p then
                 (case release p st of
                    Inl f \<Rightarrow> Inl f
                  | Inr st1 \<Rightarrow>
                      (case heap st1 q of
                         None \<Rightarrow> Inl InvalidPointer
                       | Some m \<Rightarrow>
                           if m_refcount m = INT_MAX then Inl IntOverflow
                           else Inr (st1\<lparr>heap := (heap st1)(q \<mapsto> m\<lparr>m_refcount := m_refcount m + 1\<rparr>),
                                         handles := (handles st1)(h \<mapsto> q)\<rparr>)))
               else Inr st))"

datatype ptr_op =
    New addr MessageType "8 word" Message_class
  | Adopt handle addr
  | Copy handle handle
  | Assign handle handle
  | Destroy handle

fun ptr_step :: "ptr_op \<Rightarrow> store \<Rightarrow> fault + store" where
  "ptr_step (New p t ctx c) st = Message_alloc p t ctx c st"
| "ptr_step (Adopt h msg) st = MessagePtr_new h msg st"
| "ptr_step (Copy h ptr) st = MessagePtr_copy h ptr st"
| "ptr_step (Assign h msg) st = MessagePtr_assign h msg st"
| "ptr_step (Destroy h) st = MessagePtr_destroy h st"

fun ptr_run :: "ptr_op list \<Rightarrow> store \<Rightarrow> fault + store" where
  "ptr_run [] st = Inr st"
| "ptr_run (x # xs) st = (case ptr_step x st of Inl f \<Rightarrow> Inl f | Inr st' \<Rightarrow> ptr_run xs st')"

text \<open>Read off the calls alone: where each handle points after them. A copy and an
  assignment make the handle point where the other one does.\<close>

fun track :: "(handle \<rightharpoonup> addr) \<Rightarrow> ptr_op \<Rightarrow> (handle \<rightharpoonup> addr)" where
  "track T (New p t ctx c) = T"
| "track T (Adopt h msg) = T(h \<mapsto> msg)"
| "track T (Copy h ptr) = T(h := T ptr)"
| "track T (Assign h msg) = T(h := T msg)"
| "track T (Destroy h) = T(h := None)"

definition targets :: "ptr_op list \<Rightarrow> (handle \<rightharpoonup> addr)" where
  "targets ops = foldl track Map.empty ops"

text \<open>The handles that point to a message, the count a message holds, and the invariant
  that ties them: a message that is not allocated has no holder, and the count of an
  allocated one is the number of its holders.\<close>

definition holders :: "store \<Rightarrow> addr \<Rightarrow> handle set" where
  "holders st p = {h. handles st h = Some p}"

definition refcount_at :: "store \<Rightarrow> addr \<Rightarrow> int option" where
  "refcount_at st p = map_option m_refcount (heap st p)"

definition rc_inv :: "store \<Rightarrow> bool" where
  "rc_inv st \<longleftrightarrow>
     finite (dom (handles st)) \<and>
     (\<forall>p. case heap st p of
             None \<Rightarrow> holders st p = {}
           | Some m \<Rightarrow> m_refcount m = int (card (holders st p)))"

section \<open>Properties of timeout\<close>

lemma timeout_small:
  "msecs \<le> 1000 \<Longrightarrow>
     timeout_tv (timeout msecs s) = \<lparr>tv_sec = 0, tv_usec = uint msecs * 1000\<rparr>"
proof -
  assume le: "msecs \<le> 1000"
  then have "uint msecs \<le> 1000"
    by (simp add: word_le_def)
  then have "uint msecs * 1000 < 2 ^ 32"
    by simp
  moreover have "0 \<le> uint msecs * 1000"
    by simp
  ultimately have "uint (msecs * 1000) = uint msecs * 1000"
    by (simp add: uint_word_ariths)
  with le show ?thesis
    by (simp add: timeout_def not_less [symmetric])
qed

text \<open>For every argument but 1000 the fields are the whole seconds and the remaining
  milliseconds, in microseconds.\<close>

lemma timeout_large:
  assumes "msecs > 1000"
  shows "timeout_tv (timeout msecs s) =
     \<lparr>tv_sec = uint msecs div 1000, tv_usec = (uint msecs mod 1000) * 1000\<rparr>"
proof -
  have sec: "uint (msecs div 1000) = uint msecs div 1000"
    by (simp add: uint_div)
  have "uint msecs - uint msecs div 1000 * 1000 = uint msecs mod 1000"
    by (simp add: minus_div_mult_eq_mod)
  then have rest: "(word_of_int (uint msecs - uint msecs div 1000 * 1000) :: uint) =
      word_of_int (uint msecs mod 1000)"
    by (rule arg_cong)
  have small: "0 \<le> uint msecs mod 1000" "uint msecs mod 1000 < 1000"
    by simp_all
  then have usec: "uint ((word_of_int (uint msecs mod 1000) :: uint) * 1000) =
      (uint msecs mod 1000) * 1000"
    by (simp add: uint_word_ariths uint_word_of_int take_bit_eq_mod)
  from assms have "timeout msecs s =
      s\<lparr>timeout_tv := \<lparr>tv_sec = uint (msecs div 1000),
        tv_usec = uint ((word_of_int (uint msecs - uint (msecs div 1000) * 1000) :: uint) * 1000)\<rparr>\<rparr>"
    by (simp only: timeout_def Let_def if_True)
  then have "timeout msecs s =
      s\<lparr>timeout_tv := \<lparr>tv_sec = uint msecs div 1000, tv_usec = (uint msecs mod 1000) * 1000\<rparr>\<rparr>"
    by (simp only: sec rest usec)
  then show ?thesis
    by simp
qed

lemma timeout_decomposes:
  assumes "msecs \<noteq> 1000"
  shows "tv_sec (timeout_tv (timeout msecs s)) = uint msecs div 1000 \<and>
     tv_usec (timeout_tv (timeout msecs s)) = (uint msecs mod 1000) * 1000 \<and>
     tv_usec (timeout_tv (timeout msecs s)) < 1000000"
proof (cases "msecs > 1000")
  case True
  then show ?thesis
    by (simp add: timeout_large)
next
  case False
  with assms have lt: "msecs < 1000"
    by simp
  then have "uint msecs < 1000"
    by (simp add: word_less_def)
  moreover from lt have "msecs \<le> 1000"
    by simp
  ultimately show ?thesis
    by (simp add: timeout_small)
qed

text \<open>
  C9, at the boundary. For \<open>msecs = 1000\<close> the test \<open>msecs > 1000\<close> is false, so
  the seconds field is 0 (not 1, the number of whole seconds) and the microseconds field
  is 1000000 (a whole second, not a sub-second remainder).
\<close>

theorem timeout_1000_not_decomposed:
  "tv_sec (timeout_tv (timeout 1000 s)) = 0 \<and>
   tv_usec (timeout_tv (timeout 1000 s)) = 1000000"
  by (simp add: timeout_def)

section \<open>Properties of the registry\<close>

lemma set_back_in: "finite S \<Longrightarrow> set_back S \<in> insert event_invalid_fd S"
  by (simp add: set_back_def)

lemma dir_inv_insert:
  "dir_inv S F n K \<Longrightarrow> dir_inv (insert fd S) (insert fd F) (if fd > n then fd else n) (insert fd K)"
  by (auto simp: dir_inv_def)

lemma dir_inv_mono: "dir_inv S F n K \<Longrightarrow> K \<subseteq> K' \<Longrightarrow> dir_inv S F n K'"
  by (auto simp: dir_inv_def)

lemma dir_inv_clear:
  assumes "dir_inv S F n K"
  shows "dir_inv (S - {fd}) (F - {fd}) (if fd = n then set_back (S - {fd}) else n) (K - {fd})"
proof -
  from assms have "finite (S - {fd})" by (simp add: dir_inv_def)
  from set_back_in [OF this] assms show ?thesis
    by (auto simp: dir_inv_def)
qed




lemma keys_map_assign: "set (map_keys (map_assign k v xs)) = insert k (set (map_keys xs))"
  unfolding map_keys_def by (induction k v xs rule: map_assign.induct) (simp_all add: insert_commute)

lemma values_map_assign: "snd ` set (map_assign k v xs) \<subseteq> insert v (snd ` set xs)"
proof (induction k v xs rule: map_assign.induct)
  case (1 k v)
  then show ?case by simp
next
  case (2 k v k' v' xs)
  then show ?case
    by (cases "k < k'"; cases "k = k'") (simp_all add: subset_insertI2 insert_commute)
qed

lemma set_map_erase: "set (map_erase k xs) \<subseteq> set xs"
  by (induction k xs rule: map_erase.induct) (simp_all add: subset_insertI2)

lemma keys_map_erase:
  "sorted_wrt (<) (map_keys xs) \<Longrightarrow> set (map_keys (map_erase k xs)) = set (map_keys xs) - {k}"
  unfolding map_keys_def
proof (induction k xs rule: map_erase.induct)
  case (1 k)
  then show ?case by simp
next
  case (2 k k' v' xs)
  then have notin: "k' \<notin> fst ` set xs"
    by auto
  show ?case
  proof (cases "k = k'")
    case True
    with notin show ?thesis by simp
  next
    case False
    with "2" show ?thesis by (simp add: insert_Diff_if)
  qed
qed

lemma sorted_map_assign:
  "sorted_wrt (<) (map_keys xs) \<Longrightarrow> sorted_wrt (<) (map_keys (map_assign k v xs))"
proof (induction k v xs rule: map_assign.induct)
  case (1 k v)
  then show ?case by (simp add: map_keys_def)
next
  case (2 k v k' v' xs)
  from "2.prems" have tl: "sorted_wrt (<) (map_keys xs)" and hd: "\<forall>x \<in> set (map_keys xs). k' < x"
    by (simp_all add: map_keys_def)
  show ?case
  proof (cases "k < k'")
    case True
    with "2.prems" hd show ?thesis
      by (auto simp: map_keys_def)
  next
    case False
    show ?thesis
    proof (cases "k = k'")
      case True
      with "2.prems" show ?thesis by (simp add: map_keys_def)
    next
      case ne: False
      with False have lt: "k' < k" by simp
      from hd lt have "\<forall>x \<in> set (map_keys (map_assign k v xs)). k' < x"
        by (simp add: keys_map_assign)
      moreover from "2.IH" [OF False ne tl] have "sorted_wrt (<) (map_keys (map_assign k v xs))" .
      ultimately show ?thesis
        using False ne by (simp add: map_keys_def)
    qed
  qed
qed

lemma sorted_map_erase:
  "sorted_wrt (<) (map_keys xs) \<Longrightarrow> sorted_wrt (<) (map_keys (map_erase k xs))"
proof (induction k xs rule: map_erase.induct)
  case (1 k)
  then show ?case by simp
next
  case (2 k k' v' xs)
  from "2.prems" have tl: "sorted_wrt (<) (map_keys xs)" and hd: "\<forall>x \<in> set xs. k' < fst x"
    by (simp_all add: map_keys_def)
  from hd set_map_erase [of k xs] have hd': "\<forall>x \<in> set (map_erase k xs). k' < fst x"
    by blast
  show ?case
  proof (cases "k = k'")
    case True
    with tl show ?thesis by simp
  next
    case False
    with "2.IH" [OF False tl] hd' show ?thesis
      by (simp add: map_keys_def)
  qed
qed

lemma fIsSet_nonzero: "fIsSet x f \<Longrightarrow> f \<noteq> 0 \<Longrightarrow> x \<noteq> 0"
  by (auto simp: fIsSet_def)


lemma fIsSet_event_nonzero:
  "fIsSet x event_read \<or> fIsSet x event_write \<or> fIsSet x event_error \<Longrightarrow> x \<noteq> 0"
  by (auto simp: fIsSet_def event_read_def event_write_def event_error_def)

lemma add_eq:
  "add fd events s =
     (if fd = event_invalid_fd \<or>
         \<not> (fIsSet events event_read \<or> fIsSet events event_write \<or> fIsSet events event_error)
      then Inl AssertionFailed
      else Inr (1, s\<lparr>
        fds_r := (if fIsSet events event_read then insert fd (fds_r s) else fds_r s),
        read_set := (if fIsSet events event_read then insert fd (read_set s) else read_set s),
        nfds_r := (if fIsSet events event_read \<and> fd > nfds_r s then fd else nfds_r s),
        fds_w := (if fIsSet events event_write then insert fd (fds_w s) else fds_w s),
        write_set := (if fIsSet events event_write then insert fd (write_set s) else write_set s),
        nfds_w := (if fIsSet events event_write \<and> fd > nfds_w s then fd else nfds_w s),
        fds_e := (if fIsSet events event_error then insert fd (fds_e s) else fds_e s),
        error_set := (if fIsSet events event_error then insert fd (error_set s) else error_set s),
        nfds_e := (if fIsSet events event_error \<and> fd > nfds_e s then fd else nfds_e s),
        fd_list := map_assign fd events (fd_list s)\<rparr>))"
  by (cases "fIsSet events event_read"; cases "fIsSet events event_write";
      cases "fIsSet events event_error") (simp_all add: add_def)

lemma add_fields:
  assumes "add fd events s = Inr (r, s')"
  shows "r = 1" and "fd \<noteq> event_invalid_fd"
    and "fIsSet events event_read \<or> fIsSet events event_write \<or> fIsSet events event_error"
    and "fds_r s' = (if fIsSet events event_read then insert fd (fds_r s) else fds_r s)"
    and "fds_w s' = (if fIsSet events event_write then insert fd (fds_w s) else fds_w s)"
    and "fds_e s' = (if fIsSet events event_error then insert fd (fds_e s) else fds_e s)"
    and "read_set s' = (if fIsSet events event_read then insert fd (read_set s) else read_set s)"
    and "write_set s' = (if fIsSet events event_write then insert fd (write_set s) else write_set s)"
    and "error_set s' = (if fIsSet events event_error then insert fd (error_set s) else error_set s)"
    and "nfds_r s' = (if fIsSet events event_read \<and> fd > nfds_r s then fd else nfds_r s)"
    and "nfds_w s' = (if fIsSet events event_write \<and> fd > nfds_w s then fd else nfds_w s)"
    and "nfds_e s' = (if fIsSet events event_error \<and> fd > nfds_e s then fd else nfds_e s)"
    and "fd_list s' = map_assign fd events (fd_list s)"
    and "fd_iter s' = fd_iter s"
proof -
  from assms have ok: "\<not> (fd = event_invalid_fd \<or>
         \<not> (fIsSet events event_read \<or> fIsSet events event_write \<or> fIsSet events event_error))"
    by (auto simp: add_eq split: if_splits)
  from assms have s': "s' = snd (projr (add fd events s))" and r: "r = fst (projr (add fd events s))"
    by simp_all
  from ok show "fd \<noteq> event_invalid_fd"
    and "fIsSet events event_read \<or> fIsSet events event_write \<or> fIsSet events event_error"
    by simp_all
  from ok show "r = 1" unfolding r add_eq by simp
  from ok show "fds_r s' = (if fIsSet events event_read then insert fd (fds_r s) else fds_r s)"
    unfolding s' add_eq by simp
  from ok show "fds_w s' = (if fIsSet events event_write then insert fd (fds_w s) else fds_w s)"
    unfolding s' add_eq by simp
  from ok show "fds_e s' = (if fIsSet events event_error then insert fd (fds_e s) else fds_e s)"
    unfolding s' add_eq by simp
  from ok show "read_set s' = (if fIsSet events event_read then insert fd (read_set s) else read_set s)"
    unfolding s' add_eq by simp
  from ok show "write_set s' = (if fIsSet events event_write then insert fd (write_set s) else write_set s)"
    unfolding s' add_eq by simp
  from ok show "error_set s' = (if fIsSet events event_error then insert fd (error_set s) else error_set s)"
    unfolding s' add_eq by simp
  from ok show "nfds_r s' = (if fIsSet events event_read \<and> fd > nfds_r s then fd else nfds_r s)"
    unfolding s' add_eq by simp
  from ok show "nfds_w s' = (if fIsSet events event_write \<and> fd > nfds_w s then fd else nfds_w s)"
    unfolding s' add_eq by simp
  from ok show "nfds_e s' = (if fIsSet events event_error \<and> fd > nfds_e s then fd else nfds_e s)"
    unfolding s' add_eq by simp
  from ok show "fd_list s' = map_assign fd events (fd_list s)"
    unfolding s' add_eq by simp
  from ok show "fd_iter s' = fd_iter s"
    unfolding s' add_eq by simp
qed


lemma add_registry_inv:
  assumes inv: "registry_inv s" and add: "add fd events s = Inr (r, s')"
  shows "registry_inv s'"
proof -
  note f = add_fields [OF add]
  let ?K = "set (map_keys (fd_list s))"
  have nz: "events \<noteq> 0"
    using f(3) by (rule fIsSet_event_nonzero)
  from inv have dr: "dir_inv (read_set s) (fds_r s) (nfds_r s) ?K"
    and dw: "dir_inv (write_set s) (fds_w s) (nfds_w s) ?K"
    and de: "dir_inv (error_set s) (fds_e s) (nfds_e s) ?K"
    and srt: "sorted_wrt (<) (map_keys (fd_list s))"
    and val: "0 \<notin> snd ` set (fd_list s)"
    by (simp_all add: registry_inv_def)
  have keys: "set (map_keys (fd_list s')) = insert fd ?K"
    by (simp add: f(13) keys_map_assign)
  have "dir_inv (read_set s') (fds_r s') (nfds_r s') (insert fd ?K)"
    unfolding f using dir_inv_insert [OF dr, of fd] dir_inv_mono [OF dr, of "insert fd ?K"]
    by (cases "fIsSet events event_read"; cases "nfds_r s < fd") (simp_all add: subset_insertI)
  moreover have "dir_inv (write_set s') (fds_w s') (nfds_w s') (insert fd ?K)"
    unfolding f using dir_inv_insert [OF dw, of fd] dir_inv_mono [OF dw, of "insert fd ?K"]
    by (cases "fIsSet events event_write"; cases "nfds_w s < fd") (simp_all add: subset_insertI)
  moreover have "dir_inv (error_set s') (fds_e s') (nfds_e s') (insert fd ?K)"
    unfolding f using dir_inv_insert [OF de, of fd] dir_inv_mono [OF de, of "insert fd ?K"]
    by (cases "fIsSet events event_error"; cases "nfds_e s < fd") (simp_all add: subset_insertI)
  moreover have "sorted_wrt (<) (map_keys (fd_list s'))"
    using srt by (simp add: f(13) sorted_map_assign)
  moreover have "0 \<notin> snd ` set (fd_list s')"
    using val nz values_map_assign [of fd events "fd_list s"] unfolding f(13) by blast
  ultimately show ?thesis
    unfolding registry_inv_def keys by blast
qed


lemma clear_read_fields:
  "read_set (clear_read fd s) = read_set s - {fd}"
  "fds_r (clear_read fd s) = fds_r s - {fd}"
  "nfds_r (clear_read fd s) = (if fd = nfds_r s then set_back (read_set s - {fd}) else nfds_r s)"
  "write_set (clear_read fd s) = write_set s" "fds_w (clear_read fd s) = fds_w s"
  "nfds_w (clear_read fd s) = nfds_w s"
  "error_set (clear_read fd s) = error_set s" "fds_e (clear_read fd s) = fds_e s"
  "nfds_e (clear_read fd s) = nfds_e s"
  "fd_list (clear_read fd s) = fd_list s" "fd_iter (clear_read fd s) = fd_iter s"
  by (simp_all add: clear_read_def Let_def)

lemma clear_write_fields:
  "write_set (clear_write fd s) = write_set s - {fd}"
  "fds_w (clear_write fd s) = fds_w s - {fd}"
  "nfds_w (clear_write fd s) = (if fd = nfds_w s then set_back (write_set s - {fd}) else nfds_w s)"
  "read_set (clear_write fd s) = read_set s" "fds_r (clear_write fd s) = fds_r s"
  "nfds_r (clear_write fd s) = nfds_r s"
  "error_set (clear_write fd s) = error_set s" "fds_e (clear_write fd s) = fds_e s"
  "nfds_e (clear_write fd s) = nfds_e s"
  "fd_list (clear_write fd s) = fd_list s" "fd_iter (clear_write fd s) = fd_iter s"
  by (simp_all add: clear_write_def Let_def)

lemma clear_error_fields:
  "error_set (clear_error fd s) = error_set s - {fd}"
  "fds_e (clear_error fd s) = fds_e s - {fd}"
  "nfds_e (clear_error fd s) = (if fd = nfds_e s then set_back (error_set s - {fd}) else nfds_e s)"
  "read_set (clear_error fd s) = read_set s" "fds_r (clear_error fd s) = fds_r s"
  "nfds_r (clear_error fd s) = nfds_r s"
  "write_set (clear_error fd s) = write_set s" "fds_w (clear_error fd s) = fds_w s"
  "nfds_w (clear_error fd s) = nfds_w s"
  "fd_list (clear_error fd s) = fd_list s" "fd_iter (clear_error fd s) = fd_iter s"
  by (simp_all add: clear_error_def Let_def)

lemmas clear_fields = clear_read_fields clear_write_fields clear_error_fields

lemma dir_inv_clear_same:
  "dir_inv S F n K \<Longrightarrow> dir_inv (S - {fd}) (F - {fd}) (if fd = n then set_back (S - {fd}) else n) K"
  by (rule dir_inv_mono [OF dir_inv_clear]) auto

lemma clear_read_registry_inv: "registry_inv s \<Longrightarrow> registry_inv (clear_read fd s)"
  unfolding registry_inv_def clear_read_fields by (simp add: dir_inv_clear_same)

lemma clear_write_registry_inv: "registry_inv s \<Longrightarrow> registry_inv (clear_write fd s)"
  unfolding registry_inv_def clear_write_fields by (simp add: dir_inv_clear_same)

lemma clear_error_registry_inv: "registry_inv s \<Longrightarrow> registry_inv (clear_error fd s)"
  unfolding registry_inv_def clear_error_fields by (simp add: dir_inv_clear_same)





lemma fIsSet_zero:
  "\<not> fIsSet 0 event_read" "\<not> fIsSet 0 event_write" "\<not> fIsSet 0 event_error"
  by (simp_all add: fIsSet_def event_read_def event_write_def event_error_def)

lemma modify_Inr:
  assumes "modify fd events s = Inr (r, s')"
  obtains s0 where "fd \<noteq> event_invalid_fd" and "r = 0"
    and "if events \<noteq> 0 then add fd events s = Inr (1, s0) else s0 = s"
    and "s' = (let s1 = (if \<not> fIsSet events event_read then clear_read fd s0 else s0);
                   s2 = (if \<not> fIsSet events event_write then clear_write fd s1 else s1)
               in (if \<not> fIsSet events event_error then clear_error fd s2 else s2))"
proof (cases "events = 0")
  case True
  with assms that [of s] show ?thesis
    by (simp add: modify_def fIsSet_zero Let_def split: if_splits)
next
  case False
  from assms have fd: "fd \<noteq> event_invalid_fd"
    by (auto simp: modify_def)
  from assms False fd obtain r0 s0 where a: "add fd events s = Inr (r0, s0)"
    by (cases "add fd events s") (auto simp: modify_def)
  from add_fields(1) [OF a] a have "add fd events s = Inr (1, s0)"
    by simp
  with assms False fd that [of s0] show ?thesis
    by (simp add: modify_def Let_def)
qed

lemma modify_registry_inv:
  assumes inv: "registry_inv s" and m: "modify fd events s = Inr (r, s')"
  shows "registry_inv s'"
proof -
  from m obtain s0 where
    s0: "if events \<noteq> 0 then add fd events s = Inr (1, s0) else s0 = s"
    and s': "s' = (let s1 = (if \<not> fIsSet events event_read then clear_read fd s0 else s0);
                   s2 = (if \<not> fIsSet events event_write then clear_write fd s1 else s1)
               in (if \<not> fIsSet events event_error then clear_error fd s2 else s2))"
    by (rule modify_Inr)
  from s0 inv have "registry_inv s0"
    by (cases "events = 0") (auto dest: add_registry_inv)
  then show ?thesis
    unfolding s' Let_def
    by (simp add: clear_read_registry_inv clear_write_registry_inv clear_error_registry_inv)
qed


lemma remove_Inr:
  assumes "remove fd s = Inr (r, s')"
  shows "r = 1" and "fd \<noteq> event_invalid_fd" and "fd \<in> set (map_keys (fd_list s))"
    and "s' = (clear_error fd (clear_write fd (clear_read fd s)))
           \<lparr>fd_list := map_erase fd (fd_list s),
            fd_iter := map_begin (map_erase fd (fd_list s))\<rparr>"
  using assms by (auto simp: remove_def Let_def clear_fields split: if_splits)

lemma remove_registry_inv:
  assumes inv: "registry_inv s" and rm: "remove fd s = Inr (r, s')"
  shows "registry_inv s'"
proof -
  note s' = remove_Inr(4) [OF rm]
  let ?K = "set (map_keys (fd_list s))"
  from inv have dr: "dir_inv (read_set s) (fds_r s) (nfds_r s) ?K"
    and dw: "dir_inv (write_set s) (fds_w s) (nfds_w s) ?K"
    and de: "dir_inv (error_set s) (fds_e s) (nfds_e s) ?K"
    and srt: "sorted_wrt (<) (map_keys (fd_list s))"
    and val: "0 \<notin> snd ` set (fd_list s)"
    by (simp_all add: registry_inv_def)
  have keys: "set (map_keys (fd_list s')) = ?K - {fd}"
    unfolding s' using srt by (simp add: keys_map_erase)
  have "dir_inv (read_set s') (fds_r s') (nfds_r s') (?K - {fd})"
    unfolding s' using dir_inv_clear [OF dr, of fd]
    by (cases "fd = nfds_r s") (simp_all add: clear_fields)
  moreover have "dir_inv (write_set s') (fds_w s') (nfds_w s') (?K - {fd})"
    unfolding s' using dir_inv_clear [OF dw, of fd]
    by (cases "fd = nfds_w s") (simp_all add: clear_fields)
  moreover have "dir_inv (error_set s') (fds_e s') (nfds_e s') (?K - {fd})"
    unfolding s' using dir_inv_clear [OF de, of fd]
    by (cases "fd = nfds_e s") (simp_all add: clear_fields)
  moreover have "sorted_wrt (<) (map_keys (fd_list s'))"
    unfolding s' using srt by (simp add: sorted_map_erase)
  moreover have "0 \<notin> snd ` set (fd_list s')"
    unfolding s' using val set_map_erase [of fd "fd_list s"] by auto
  ultimately show ?thesis
    unfolding registry_inv_def keys by blast
qed


lemma EventSelect_new_registry_inv: "registry_inv (EventSelect_new u)"
  by (simp add: registry_inv_def dir_inv_def EventSelect_new_def map_keys_def)


lemma step_registry_inv: "registry_inv s \<Longrightarrow> step x s = Inr s' \<Longrightarrow> registry_inv s'"
  by (cases x)
    (auto simp: map_sum_def split: sum.splits
      dest: add_registry_inv modify_registry_inv remove_registry_inv)


lemma run_ops_registry_inv:
  "registry_inv s \<Longrightarrow> run_ops xs s = Inr s' \<Longrightarrow> registry_inv s'"
proof (induction xs arbitrary: s)
  case Nil
  then show ?case by simp
next
  case (Cons x xs)
  from Cons.prems(2) obtain s1 where s1: "step x s = Inr s1" and rest: "run_ops xs s1 = Inr s'"
    by (cases "step x s") simp_all
  from step_registry_inv [OF Cons.prems(1) s1] rest show ?case
    by (rule Cons.IH)
qed



lemmas ev_defs = EventSelect_new_def zeroed_def add_def modify_def remove_def fIsSet_def
  fSet_def event_read_def event_write_def event_error_def event_invalid_fd_def clear_read_def
  clear_write_def clear_error_def set_back_def Let_def map_keys_def insert_Diff_if

lemma reachable_registry_inv: "run_ops xs (EventSelect_new u) = Inr s \<Longrightarrow> registry_inv s"
  by (rule run_ops_registry_inv [OF EventSelect_new_registry_inv])

lemma modify_fields:
  assumes m: "modify fd events s = Inr (r, s')"
  shows "fds_r s' = (if fIsSet events event_read then insert fd (fds_r s) else fds_r s - {fd})"
    and "fds_w s' = (if fIsSet events event_write then insert fd (fds_w s) else fds_w s - {fd})"
    and "fds_e s' = (if fIsSet events event_error then insert fd (fds_e s) else fds_e s - {fd})"
    and "fd_list s' = (if events \<noteq> 0 then map_assign fd events (fd_list s) else fd_list s)"
proof -
  from m obtain s0 where
    s0: "if events \<noteq> 0 then add fd events s = Inr (1, s0) else s0 = s"
    and s': "s' = (let s1 = (if \<not> fIsSet events event_read then clear_read fd s0 else s0);
                   s2 = (if \<not> fIsSet events event_write then clear_write fd s1 else s1)
               in (if \<not> fIsSet events event_error then clear_error fd s2 else s2))"
    by (rule modify_Inr)
  have f: "fds_r s0 = (if fIsSet events event_read then insert fd (fds_r s) else fds_r s)"
    "fds_w s0 = (if fIsSet events event_write then insert fd (fds_w s) else fds_w s)"
    "fds_e s0 = (if fIsSet events event_error then insert fd (fds_e s) else fds_e s)"
    "fd_list s0 = (if events \<noteq> 0 then map_assign fd events (fd_list s) else fd_list s)"
    using s0 add_fields(4-6,13) [of fd events s 1 s0]
    by (cases "events = 0"; simp add: fIsSet_zero)+
  show "fds_r s' = (if fIsSet events event_read then insert fd (fds_r s) else fds_r s - {fd})"
    unfolding s' Let_def
    by (cases "fIsSet events event_read"; cases "fIsSet events event_write";
        cases "fIsSet events event_error") (simp_all add: clear_fields f)
  show "fds_w s' = (if fIsSet events event_write then insert fd (fds_w s) else fds_w s - {fd})"
    unfolding s' Let_def
    by (cases "fIsSet events event_read"; cases "fIsSet events event_write";
        cases "fIsSet events event_error") (simp_all add: clear_fields f)
  show "fds_e s' = (if fIsSet events event_error then insert fd (fds_e s) else fds_e s - {fd})"
    unfolding s' Let_def
    by (cases "fIsSet events event_read"; cases "fIsSet events event_write";
        cases "fIsSet events event_error") (simp_all add: clear_fields f)
  show "fd_list s' = (if events \<noteq> 0 then map_assign fd events (fd_list s) else fd_list s)"
    unfolding s' Let_def
    by (cases "fIsSet events event_read"; cases "fIsSet events event_write";
        cases "fIsSet events event_error") (simp_all add: clear_fields f)
qed

lemma remove_fields:
  assumes rm: "remove fd s = Inr (r, s')"
  shows "fds_r s' = fds_r s - {fd}" and "fds_w s' = fds_w s - {fd}"
    and "fds_e s' = fds_e s - {fd}" and "fd_list s' = map_erase fd (fd_list s)"
  unfolding remove_Inr(4) [OF rm] by (simp_all add: clear_fields)


lemma step_registered:
  assumes inv: "registry_inv s" and st: "step x s = Inr s'"
  shows "set (map_keys (fd_list s')) = registered_step (set (map_keys (fd_list s))) x"
proof (cases x)
  case (Add fd events)
  with st obtain r where "add fd events s = Inr (r, s')"
    by (cases "add fd events s") auto
  from add_fields(13) [OF this] show ?thesis
    by (simp add: Add keys_map_assign)
next
  case (Modify fd events)
  with st obtain r where "modify fd events s = Inr (r, s')"
    by (cases "modify fd events s") auto
  from modify_fields(4) [OF this] show ?thesis
    by (simp add: Modify keys_map_assign)
next
  case (Remove fd)
  with st obtain r where "remove fd s = Inr (r, s')"
    by (cases "remove fd s") auto
  from remove_fields(4) [OF this] inv show ?thesis
    by (simp add: Remove keys_map_erase registry_inv_def)
qed


lemma run_ops_registered:
  "registry_inv s \<Longrightarrow> run_ops xs s = Inr s' \<Longrightarrow>
     set (map_keys (fd_list s')) = foldl registered_step (set (map_keys (fd_list s))) xs"
proof (induction xs arbitrary: s)
  case Nil
  then show ?case by simp
next
  case (Cons x xs)
  from Cons.prems(2) obtain s1 where s1: "step x s = Inr s1" and rest: "run_ops xs s1 = Inr s'"
    by (cases "step x s") simp_all
  from Cons.IH [OF step_registry_inv [OF Cons.prems(1) s1] rest]
    step_registered [OF Cons.prems(1) s1] show ?case
    by simp
qed


lemma reachable_registered:
  assumes "run_ops xs (EventSelect_new u) = Inr s"
  shows "set (map_keys (fd_list s)) = registered xs"
  using run_ops_registered [OF EventSelect_new_registry_inv assms]
  by (simp add: registered_def EventSelect_new_def map_keys_def)






lemma modify_zero:
  assumes "fd \<noteq> event_invalid_fd"
  shows "modify fd 0 s = Inr (0, clear_error fd (clear_write fd (clear_read fd s)))"
  using assms by (simp add: modify_def fIsSet_zero)

text \<open>
  C4, as stated, fails: after \<open>add(5, read)\<close>, the call \<open>modify(5, 0)\<close> leaves the entry
  of descriptor 5 in \<open>fd_list\<close>, with the mask it had.
\<close>

theorem modify_zero_keeps_entry_counterexample:
  "map_sum id fd_list (run_ops [Add 5 1, Modify 5 0] (EventSelect_new zeroed)) = Inr [(5, 1)]"
  by (simp add: ev_defs)

lemma remove_registered:
  assumes "fd \<noteq> event_invalid_fd" and "fd \<in> set (map_keys (fd_list s))"
  shows "\<exists>s'. remove fd s = Inr (1, s') \<and> fd_list s' = map_erase fd (fd_list s)"
  using assms by (simp add: remove_def Let_def clear_fields)

text \<open>
  C4, amended. After any sequence of \<open>add\<close>, \<open>modify\<close> and \<open>remove\<close> calls that passes
  the assertions, no entry of \<open>fd_list\<close> holds the zero mask, and the keys of \<open>fd_list\<close> are
  the descriptors given to an \<open>add\<close> or to a \<open>modify\<close> with a mask that is not zero and
  not to a \<open>remove\<close> since. A \<open>modify\<close> with the zero mask succeeds, leaves \<open>fd_list\<close> as
  it is, and takes the descriptor out of the three interest sets. A \<open>remove\<close> of a registered
  descriptor succeeds and erases its entry.
\<close>

theorem registry_masks_nonzero:
  assumes "run_ops xs (EventSelect_new u) = Inr s"
  shows "list_all (\<lambda>e. snd e \<noteq> 0) (fd_list s) \<and>
     set (map_keys (fd_list s)) = registered xs \<and>
     (fd \<noteq> event_invalid_fd \<longrightarrow>
        (\<exists>s'. modify fd 0 s = Inr (0, s') \<and> fd_list s' = fd_list s \<and>
           fds_r s' = fds_r s - {fd} \<and> fds_w s' = fds_w s - {fd} \<and> fds_e s' = fds_e s - {fd})) \<and>
     (fd \<noteq> event_invalid_fd \<and> fd \<in> set (map_keys (fd_list s)) \<longrightarrow>
        (\<exists>s'. remove fd s = Inr (1, s') \<and>
           set (map_keys (fd_list s')) = set (map_keys (fd_list s)) - {fd}))"
proof -
  from assms have inv: "registry_inv s"
    by (rule reachable_registry_inv)
  then have "0 \<notin> snd ` set (fd_list s)" and srt: "sorted_wrt (<) (map_keys (fd_list s))"
    by (simp_all add: registry_inv_def)
  then have "list_all (\<lambda>e. snd e \<noteq> 0) (fd_list s)"
    by (auto simp: list_all_iff)
  moreover note reachable_registered [OF assms]
  moreover have "\<exists>s'. remove fd s = Inr (1, s') \<and>
           set (map_keys (fd_list s')) = set (map_keys (fd_list s)) - {fd}"
    if "fd \<noteq> event_invalid_fd" and "fd \<in> set (map_keys (fd_list s))"
  proof -
    from remove_registered [OF that] obtain s' where
      "remove fd s = Inr (1, s')" and "fd_list s' = map_erase fd (fd_list s)"
      by blast
    with keys_map_erase [OF srt, of fd] show ?thesis
      by simp
  qed
  ultimately show ?thesis
    by (simp add: modify_zero clear_fields)
qed

text \<open>An instance: descriptor 9, registered for reading and writing, then modified to
  the zero mask, or removed.\<close>

theorem registry_masks_nonzero_witness:
  "registered [Add 5 1, Add 9 3] = {5, 9} \<and>
   (case run_ops [Add 5 1, Add 9 3] (EventSelect_new zeroed) of
      Inl f \<Rightarrow> False
    | Inr s \<Rightarrow> fd_list s = [(5, 1), (9, 3)] \<and>
        map_sum id (\<lambda>r. (fst r, fd_list (snd r), fds_r (snd r), fds_w (snd r),
            fds_e (snd r))) (modify 9 0 s)
          = Inr (0, [(5, 1), (9, 3)], {5}, {}, {}) \<and>
        map_sum id (\<lambda>r. (fst r, set (map_keys (fd_list (snd r))))) (remove 9 s) = Inr (1, {5}))"
proof -
  obtain s where run: "run_ops [Add 5 1, Add 9 3] (EventSelect_new zeroed) = Inr s"
    and l: "fd_list s = [(5, 1), (9, 3)]"
    and sets: "fds_r s = {5, 9}" "fds_w s = {9}" "fds_e s = {}"
    by (simp add: ev_defs insert_commute)
  have ok: "(9::int) \<noteq> event_invalid_fd"
    by (simp add: event_invalid_fd_def)
  from l have key: "9 \<in> set (map_keys (fd_list s))"
    by (simp add: map_keys_def)
  note th = registry_masks_nonzero [OF run, of 9]
  from th have reg: "registered [Add 5 1, Add 9 3] = {5, 9}"
    by (simp add: l map_keys_def insert_commute)
  from th ok obtain s' where
    "modify 9 0 s = Inr (0, s')" "fd_list s' = fd_list s"
    "fds_r s' = fds_r s - {9}" "fds_w s' = fds_w s - {9}" "fds_e s' = fds_e s - {9}"
    by blast
  moreover from th ok key obtain s'' where
    "remove 9 s = Inr (1, s'')"
    "set (map_keys (fd_list s'')) = set (map_keys (fd_list s)) - {9}"
    by blast
  ultimately show ?thesis
    unfolding run sum.case using reg l sets
    by (simp add: insert_Diff_if map_keys_def)
qed

lemma map_of_map_assign: "map_of (map_assign k v xs) k = Some v"
  by (induction k v xs rule: map_assign.induct) simp_all

lemma clear_read_id:
  "fd \<notin> read_set s \<Longrightarrow> fd \<notin> fds_r s \<Longrightarrow> fd \<noteq> nfds_r s \<Longrightarrow> clear_read fd s = s"
  by (simp add: clear_read_def)

lemma clear_write_id:
  "fd \<notin> write_set s \<Longrightarrow> fd \<notin> fds_w s \<Longrightarrow> fd \<noteq> nfds_w s \<Longrightarrow> clear_write fd s = s"
  by (simp add: clear_write_def)

lemma clear_error_id:
  "fd \<notin> error_set s \<Longrightarrow> fd \<notin> fds_e s \<Longrightarrow> fd \<noteq> nfds_e s \<Longrightarrow> clear_error fd s = s"
  by (simp add: clear_error_def)

lemma dir_inv_fresh:
  "dir_inv S F n K \<Longrightarrow> fd \<notin> K \<Longrightarrow> fd \<noteq> event_invalid_fd \<Longrightarrow> fd \<notin> S \<and> fd \<notin> F \<and> fd \<noteq> n"
  by (auto simp: dir_inv_def)

text \<open>\<open>modify\<close> on a descriptor without an entry, with a mask that is not zero.\<close>

lemma modify_unregistered_eq:
  assumes reach: "run_ops xs (EventSelect_new u) = Inr s"
    and fresh: "fd \<notin> set (map_keys (fd_list s))"
    and nz: "events \<noteq> 0"
  shows "map_sum id snd (modify fd events s) = map_sum id snd (add fd events s) \<and>
     (fd \<noteq> event_invalid_fd \<and>
      (fIsSet events event_read \<or> fIsSet events event_write \<or> fIsSet events event_error)
      \<longrightarrow> (\<exists>s'. modify fd events s = Inr (0, s') \<and> add fd events s = Inr (1, s') \<and>
             map_of (fd_list s') fd = Some events))"
proof (cases "add fd events s")
  case (Inl f)
  then have a: "add fd events s = Inl AssertionFailed"
    by (simp add: add_eq split: if_splits)
  with nz have m: "modify fd events s = Inl AssertionFailed"
    by (simp add: modify_def)
  from a have "fd = event_invalid_fd \<or>
      \<not> (fIsSet events event_read \<or> fIsSet events event_write \<or> fIsSet events event_error)"
    by (simp add: add_eq split: if_splits)
  with a m show ?thesis
    by auto
next
  case (Inr p)
  obtain r s0 where p: "p = (r, s0)" by (cases p)
  note a = Inr [unfolded p]
  note f = add_fields [OF a]
  from reach have inv: "registry_inv s"
    by (rule reachable_registry_inv)
  let ?K = "set (map_keys (fd_list s))"
  from inv have dr: "dir_inv (read_set s) (fds_r s) (nfds_r s) ?K"
    and dw: "dir_inv (write_set s) (fds_w s) (nfds_w s) ?K"
    and de: "dir_inv (error_set s) (fds_e s) (nfds_e s) ?K"
    by (simp_all add: registry_inv_def)
  note fr = dir_inv_fresh [OF dr fresh f(2)] dir_inv_fresh [OF dw fresh f(2)]
    dir_inv_fresh [OF de fresh f(2)]
  have r: "\<not> fIsSet events event_read \<Longrightarrow> clear_read fd s0 = s0"
    using fr(1) by (intro clear_read_id) (simp_all add: f)
  have w: "\<not> fIsSet events event_write \<Longrightarrow> clear_write fd s0 = s0"
    using fr(2) by (intro clear_write_id) (simp_all add: f)
  have e: "\<not> fIsSet events event_error \<Longrightarrow> clear_error fd s0 = s0"
    using fr(3) by (intro clear_error_id) (simp_all add: f)
  have m: "modify fd events s = Inr (0, s0)"
    using a nz f(2) r w e by (simp add: modify_def Let_def)
  have "map_of (fd_list s0) fd = Some events"
    unfolding f(13) by (rule map_of_map_assign)
  with m a f(1) show ?thesis
    by simp
qed

text \<open>
  C10, as stated, fails: with the mask 8, which is not zero and holds none of the three event
  flags, \<open>modify\<close> on the unregistered descriptor 9 fails the assertion \<open>rc\<close> of \<open>add\<close>.
\<close>

theorem modify_unregistered_flagless_counterexample:
  "(case run_ops [Add 5 1] (EventSelect_new zeroed) of
      Inl f \<Rightarrow> None
    | Inr s \<Rightarrow> Some (9 \<in> set (map_keys (fd_list s)), map_sum id fst (modify 9 8 s),
        map_sum id fst (add 9 8 s)))
   = Some (False, Inl AssertionFailed, Inl AssertionFailed)"
  by (simp add: ev_defs)

text \<open>
  C10, amended. In a state reached by \<open>add\<close>, \<open>modify\<close> and \<open>remove\<close> calls, for a
  descriptor that has no entry in \<open>fd_list\<close> and a mask that is not zero, \<open>modify\<close> ends as
  \<open>add\<close> does: with the same failure, or in the same state. When the descriptor is not the
  sentinel and the mask holds one of the three event flags, both succeed (\<open>modify\<close>
  returning 0, \<open>add\<close> returning 1) and the descriptor is registered with that mask.
  Otherwise both fail an assertion.
\<close>

theorem modify_unregistered_is_add:
  assumes reach: "run_ops xs (EventSelect_new u) = Inr s"
    and fresh: "fd \<notin> set (map_keys (fd_list s))"
    and nz: "events \<noteq> 0"
  shows "map_sum id snd (modify fd events s) = map_sum id snd (add fd events s) \<and>
     (fd \<noteq> event_invalid_fd \<and>
      (fIsSet events event_read \<or> fIsSet events event_write \<or> fIsSet events event_error)
      \<longrightarrow> (\<exists>s'. modify fd events s = Inr (0, s') \<and> add fd events s = Inr (1, s') \<and>
             map_of (fd_list s') fd = Some events)) \<and>
     (fd = event_invalid_fd \<or>
      \<not> (fIsSet events event_read \<or> fIsSet events event_write \<or> fIsSet events event_error)
      \<longrightarrow> modify fd events s = Inl AssertionFailed \<and> add fd events s = Inl AssertionFailed)"
proof -
  have fail: "modify fd events s = Inl AssertionFailed \<and> add fd events s = Inl AssertionFailed"
    if "fd = event_invalid_fd \<or>
      \<not> (fIsSet events event_read \<or> fIsSet events event_write \<or> fIsSet events event_error)"
  proof -
    from that have a: "add fd events s = Inl AssertionFailed"
      by (simp add: add_eq)
    with nz show ?thesis
      by (simp add: modify_def)
  qed
  with modify_unregistered_eq [OF reach fresh nz] show ?thesis
    by blast
qed

text \<open>An instance: descriptor 9 is not registered when \<open>modify(9, read|write)\<close> is
  called.\<close>

theorem modify_unregistered_is_add_witness:
  "(case run_ops [Add 5 1] (EventSelect_new zeroed) of
      Inl f \<Rightarrow> False
    | Inr s \<Rightarrow> 9 \<notin> set (map_keys (fd_list s)) \<and>
        map_sum id snd (modify 9 3 s) = map_sum id snd (add 9 3 s) \<and>
        map_sum id (\<lambda>r. (fst r, fd_list (snd r))) (modify 9 3 s) = Inr (0, [(5, 1), (9, 3)]) \<and>
        map_sum id (\<lambda>r. (fst r, fd_list (snd r))) (add 9 3 s) = Inr (1, [(5, 1), (9, 3)]))"
proof -
  obtain s where run: "run_ops [Add 5 1] (EventSelect_new zeroed) = Inr s"
    and l: "fd_list s = [(5, 1)]"
    by (simp add: ev_defs)
  from l have fresh: "9 \<notin> set (map_keys (fd_list s))"
    by (simp add: map_keys_def)
  have nz: "(3::ev_t) \<noteq> 0"
    by simp
  have ok: "(9::int) \<noteq> event_invalid_fd \<and>
      (fIsSet 3 event_read \<or> fIsSet 3 event_write \<or> fIsSet 3 event_error)"
    by (simp add: event_invalid_fd_def fIsSet_def event_read_def)
  from modify_unregistered_is_add [OF run fresh nz] ok obtain s' where
    eq: "map_sum id snd (modify 9 3 s) = map_sum id snd (add 9 3 s)"
    and m: "modify 9 3 s = Inr (0, s')" and a: "add 9 3 s = Inr (1, s')"
    by blast
  from add_fields(13) [OF a] l have "fd_list s' = [(5, 1), (9, 3)]"
    by simp
  with run fresh eq m a show ?thesis
    by simp
qed

section \<open>Properties of wait and getEvent\<close>

lemma wait_eq:
  "wait select s =
     (let res = select_call select (copy_sets s);
          s2 = (copy_sets s)\<lparr>t_fds_r := sel_r res, t_fds_w := sel_w res, t_fds_e := sel_e res,
                 timeout_tv := sel_timeout res, nfds := sel_ret res\<rparr>
      in if sel_ret res = - 1 then
           if sel_errno res = EINTR then Inr (0, s2\<lparr>error := EINTR, nfds := 0\<rparr>)
           else if sel_errno res \<in> {EBADF, ENOTSOCK, EINVAL, EFAULT} then Inl AssertionFailed
           else Inr (- 1, s2\<lparr>error := sel_errno res\<rparr>)
         else if sel_ret res = 0 then Inr (0, s2)
         else Inr (sel_ret res, s2\<lparr>fd_iter := map_begin (fd_list s)\<rparr>))"
proof -
  define res where "res = select_call select (copy_sets s)"
  define s1 where "s1 = copy_sets s"
  have l: "fd_list s1 = fd_list s"
    by (simp add: s1_def copy_sets_def)
  show ?thesis
    unfolding wait_def res_def [symmetric] s1_def [symmetric] Let_def
    by (cases "sel_ret res = - 1"; cases "sel_ret res = 0"; cases "sel_errno res") (simp_all add: l)
qed


text \<open>
  C5, as stated, fails: when \<open>select()\<close> fails with \<open>EBADF\<close>, \<open>wait\<close> returns nothing to
  its caller; the assertion \<open>error != EBADF\<close> stops it.
\<close>

theorem wait_asserts_on_EBADF_counterexample:
  "wait (select_fails EBADF) (EventSelect_new zeroed) = Inl AssertionFailed"
  by (simp add: wait_def select_call_def select_fails_def)

text \<open>
  C5, amended. When \<open>select()\<close> returns \<open>-1\<close>: with \<open>EINTR\<close>, \<open>wait\<close> returns 0 and
  stores 0 in \<open>nfds\<close>; with \<open>EBADF\<close>, \<open>ENOTSOCK\<close>, \<open>EINVAL\<close> or \<open>EFAULT\<close> an assertion
  fails; with any other code \<open>wait\<close> returns \<open>-1\<close> and keeps the code in \<open>error\<close>.
\<close>

theorem wait_error_results:
  assumes "sel_ret (select_call select (copy_sets s)) = - 1"
  shows "(sel_errno (select_call select (copy_sets s)) = EINTR \<longrightarrow>
            (\<exists>s'. wait select s = Inr (0, s') \<and> nfds s' = 0 \<and> error s' = EINTR)) \<and>
         (sel_errno (select_call select (copy_sets s)) \<notin> {EINTR, EBADF, ENOTSOCK, EINVAL, EFAULT} \<longrightarrow>
            (\<exists>s'. wait select s = Inr (- 1, s') \<and> nfds s' = - 1 \<and>
                  error s' = sel_errno (select_call select (copy_sets s)))) \<and>
         (sel_errno (select_call select (copy_sets s)) \<in> {EBADF, ENOTSOCK, EINVAL, EFAULT} \<longrightarrow>
            wait select s = Inl AssertionFailed)"
proof -
  define res where "res = select_call select (copy_sets s)"
  from assms have ret: "sel_ret res = - 1"
    by (simp add: res_def)
  show ?thesis
    unfolding wait_eq res_def [symmetric] Let_def using ret
    by (cases "sel_errno res") simp_all
qed

text \<open>An instance: an interrupted call, and a call that fails with \<open>ENOMEM\<close>.\<close>

theorem wait_error_results_witness:
  "sel_ret (select_call (select_fails EINTR) (copy_sets (EventSelect_new zeroed))) = - 1 \<and>
   map_sum id fst (wait (select_fails EINTR) (EventSelect_new zeroed)) = Inr 0 \<and>
   sel_ret (select_call (select_fails ENOMEM) (copy_sets (EventSelect_new zeroed))) = - 1 \<and>
   map_sum id (\<lambda>r. (fst r, error (snd r))) (wait (select_fails ENOMEM) (EventSelect_new zeroed))
     = Inr (- 1, ENOMEM)"
proof -
  have a: "sel_ret (select_call (select_fails EINTR) (copy_sets (EventSelect_new zeroed))) = - 1"
    and b: "sel_ret (select_call (select_fails ENOMEM) (copy_sets (EventSelect_new zeroed))) = - 1"
    by (simp_all add: select_call_def select_fails_def)
  have ea: "sel_errno (select_call (select_fails EINTR) (copy_sets (EventSelect_new zeroed))) = EINTR"
    and eb: "sel_errno (select_call (select_fails ENOMEM) (copy_sets (EventSelect_new zeroed))) = ENOMEM"
    by (simp_all add: select_call_def select_fails_def)
  from wait_error_results [OF a] ea obtain s1 where
    "wait (select_fails EINTR) (EventSelect_new zeroed) = Inr (0, s1)"
    by blast
  moreover from wait_error_results [OF b] eb obtain s2 where
    "wait (select_fails ENOMEM) (EventSelect_new zeroed) = Inr (- 1, s2)" "error s2 = ENOMEM"
    by auto
  ultimately show ?thesis
    using a b by simp
qed


lemma ready_events_from: "ready_events s = ready_from s (fd_list s)"
  by (simp add: ready_events_def ready_from_def)

lemma satisfied_nonzero:
  "satisfied s k \<noteq> 0 \<longleftrightarrow> k \<in> t_fds_r s \<union> t_fds_w s \<union> t_fds_e s"
  by (cases "k \<in> t_fds_r s"; cases "k \<in> t_fds_w s"; cases "k \<in> t_fds_e s")
    (simp_all add: satisfied_def fSet_def event_read_def event_write_def event_error_def)

lemma satisfied_fd_iter [simp]: "satisfied (s\<lparr>fd_iter := x\<rparr>) k = satisfied s k"
  by (simp add: satisfied_def)

lemma ready_from_fd_iter [simp]: "ready_from (s\<lparr>fd_iter := x\<rparr>) rest = ready_from s rest"
  by (simp add: ready_from_def)

lemma getEvent_loop_fd_iter [simp]:
  "getEvent_loop (s\<lparr>fd_iter := x\<rparr>) rest fd ev = getEvent_loop s rest fd ev"
  by (induction s rest fd ev rule: getEvent_loop.induct) (simp_all add: Let_def)

lemma map_from_suffix:
  assumes "distinct (map fst (pre @ rest))"
  shows "map_from (map_begin rest) (pre @ rest) = Some rest"
proof (cases rest)
  case Nil
  then show ?thesis by simp
next
  case (Cons e rest')
  obtain k v where e: "e = (k, v)" by (cases e)
  from assms have "k \<notin> fst ` set pre"
    by (auto simp: Cons e)
  then have "\<forall>x \<in> set pre. fst x \<noteq> k"
    by auto
  then have "dropWhile (\<lambda>x. fst x \<noteq> k) (pre @ (k, v) # rest') = (k, v) # rest'"
    by (simp add: dropWhile_append3)
  then show ?thesis
    by (simp add: Cons e)
qed

lemma getEvent_at:
  assumes "distinct (map fst (fd_list s))" and "fd_list s = pre @ rest"
    and "fd_list s \<noteq> []" and "fd_iter s = map_begin rest"
  shows "getEvent fd ev s =
     (case getEvent_loop s rest fd ev of
        (b, fd', ev', it) \<Rightarrow> Inr (b, fd', ev', s\<lparr>fd_iter := it\<rparr>))"
proof -
  from assms(1,2) have "map_from (map_begin rest) (fd_list s) = Some rest"
    by (simp add: map_from_suffix)
  with assms(3,4) show ?thesis
    by (simp add: getEvent_def)
qed

lemma getEvents_exhausted:
  assumes "fd_list s \<noteq> []" and "fd_iter s = End"
  shows "getEvents j fd ev s = Inr (replicate j (False, fd, ev), s)"
proof (induction j)
  case 0
  then show ?case by simp
next
  case (Suc j)
  from assms have "s\<lparr>fd_iter := End\<rparr> = s"
    by simp
  with assms have "getEvent fd ev s = Inr (False, fd, ev, s)"
    by (simp add: getEvent_def)
  with Suc show ?case
    by simp
qed


lemma getEvents_from:
  assumes "distinct (map fst (fd_list s))" and "fd_list s = pre @ rest"
    and "fd_list s \<noteq> []" and "fd_iter s = map_begin rest"
  shows "\<exists>fs s'. getEvents (length (ready_from s rest) + j) fd ev s =
            Inr (map (\<lambda>p. (True, fst p, snd p)) (ready_from s rest) @ fs, s') \<and>
          length fs = j \<and> list_all (\<lambda>r. \<not> fst r) fs"
  using assms
proof (induction rest arbitrary: pre s fd ev)
  case Nil
  then have "getEvents j fd ev s = Inr (replicate j (False, fd, ev), s)"
    by (simp add: getEvents_exhausted)
  then show ?case
    by (simp add: ready_from_def list_all_iff)
next
  case (Cons e rest)
  obtain k v where e: "e = (k, v)" by (cases e)
  let ?s1 = "s\<lparr>fd_iter := map_begin rest\<rparr>"
  have d1: "distinct (map fst (fd_list ?s1))" and l1: "fd_list ?s1 = (pre @ [e]) @ rest"
    and n1: "fd_list ?s1 \<noteq> []" and i1: "fd_iter ?s1 = map_begin rest"
    using Cons.prems by simp_all
  note at = getEvent_at [OF Cons.prems, of fd ev]
  show ?case
  proof (cases "satisfied s k = 0")
    case False
    then have ready: "ready_from s (e # rest) = (k, satisfied s k) # ready_from s rest"
      by (simp add: ready_from_def e)
    from False at have g: "getEvent fd ev s = Inr (True, k, satisfied s k, ?s1)"
      by (simp add: e Let_def)
    from Cons.IH [OF d1 l1 n1 i1, of k "satisfied s k"] obtain fs s' where
      "getEvents (length (ready_from s rest) + j) k (satisfied s k) ?s1 =
         Inr (map (\<lambda>p. (True, fst p, snd p)) (ready_from s rest) @ fs, s')"
      and "length fs = j" and "list_all (\<lambda>r. \<not> fst r) fs"
      by auto
    with g show ?thesis
      by (simp add: ready)
  next
    case True
    then have ready: "ready_from s (e # rest) = ready_from s rest"
      by (simp add: ready_from_def e)
    from True at have g: "getEvent fd ev s = getEvent k 0 ?s1"
      unfolding getEvent_at [OF d1 l1 n1 i1] by (simp add: e Let_def)
    from Cons.IH [OF d1 l1 n1 i1, of k 0] obtain fs s' where
      r: "getEvents (length (ready_from s rest) + j) k 0 ?s1 =
         Inr (map (\<lambda>p. (True, fst p, snd p)) (ready_from s rest) @ fs, s')"
      and fs: "length fs = j" "list_all (\<lambda>r. \<not> fst r) fs"
      by auto
    show ?thesis
    proof (cases "length (ready_from s rest) + j")
      case 0
      then show ?thesis
        by (simp add: ready)
    next
      case (Suc m)
      with g have "getEvents (length (ready_from s rest) + j) fd ev s =
          getEvents (length (ready_from s rest) + j) k 0 ?s1"
        by simp
      with r fs show ?thesis
        by (simp add: ready)
    qed
  qed
qed


lemma wait_positive:
  assumes w: "wait select s = Inr (n, s1)" and pos: "0 < n"
  shows "n = sel_ret (select_call select (copy_sets s))"
    and "t_fds_r s1 = sel_r (select_call select (copy_sets s))"
    and "t_fds_w s1 = sel_w (select_call select (copy_sets s))"
    and "t_fds_e s1 = sel_e (select_call select (copy_sets s))"
    and "fd_list s1 = fd_list s"
    and "fd_iter s1 = map_begin (fd_list s)"
proof -
  define res where "res = select_call select (copy_sets s)"
  from w pos have "sel_ret res \<noteq> - 1 \<and> sel_ret res \<noteq> 0"
    unfolding wait_eq res_def [symmetric] Let_def
    by (auto split: if_splits)
  with w have "n = sel_ret res \<and>
      s1 = (copy_sets s)\<lparr>t_fds_r := sel_r res, t_fds_w := sel_w res, t_fds_e := sel_e res,
             timeout_tv := sel_timeout res, nfds := sel_ret res,
             fd_iter := map_begin (fd_list s)\<rparr>"
    unfolding wait_eq res_def [symmetric] Let_def by auto
  then show "n = sel_ret (select_call select (copy_sets s))"
    and "t_fds_r s1 = sel_r (select_call select (copy_sets s))"
    and "t_fds_w s1 = sel_w (select_call select (copy_sets s))"
    and "t_fds_e s1 = sel_e (select_call select (copy_sets s))"
    and "fd_list s1 = fd_list s"
    and "fd_iter s1 = map_begin (fd_list s)"
    by (simp_all add: res_def copy_sets_def)
qed

lemma ready_keys:
  "map fst (ready_from s rest) =
     filter (\<lambda>k. k \<in> t_fds_r s \<union> t_fds_w s \<union> t_fds_e s) (map fst rest)"
  by (induction rest) (simp_all add: ready_from_def satisfied_nonzero)

lemma ready_masks: "list_all (\<lambda>p. snd p = satisfied s (fst p) \<and> snd p \<noteq> 0) (ready_from s rest)"
  by (induction rest) (simp_all add: ready_from_def)

lemma wait_then_getEvents:
  assumes reach: "run_ops xs (EventSelect_new u) = Inr s"
    and ok: "select_ok select (copy_sets s)"
    and w: "wait select s = Inr (n, s1)" and pos: "0 < n"
  shows "sorted_wrt (<) (map fst (fd_list s1))"
    and "t_fds_r s1 \<union> t_fds_w s1 \<union> t_fds_e s1 \<subseteq> set (map fst (fd_list s1))"
    and "n = int (card (t_fds_r s1) + card (t_fds_w s1) + card (t_fds_e s1))"
    and "finite (t_fds_r s1)" "finite (t_fds_w s1)" "finite (t_fds_e s1)"
    and "\<exists>fs s2. getEvents (length (ready_events s1) + j) fd ev s1 =
            Inr (map (\<lambda>p. (True, fst p, snd p)) (ready_events s1) @ fs, s2) \<and>
          length fs = j \<and> list_all (\<lambda>r. \<not> fst r) fs"
proof -
  note wp = wait_positive [OF w pos]
  from reach have inv: "registry_inv s"
    by (rule reachable_registry_inv)
  then have srt: "sorted_wrt (<) (map fst (fd_list s))"
    and fin: "finite (fds_r s)" "finite (fds_w s)" "finite (fds_e s)"
    and sub: "fds_r s \<subseteq> set (map fst (fd_list s))" "fds_w s \<subseteq> set (map fst (fd_list s))"
      "fds_e s \<subseteq> set (map fst (fd_list s))"
    by (auto simp: registry_inv_def dir_inv_def map_keys_def)
  from ok have tsub: "t_fds_r s1 \<subseteq> fds_r s" "t_fds_w s1 \<subseteq> fds_w s" "t_fds_e s1 \<subseteq> fds_e s"
    and n: "n = int (card (t_fds_r s1) + card (t_fds_w s1) + card (t_fds_e s1))"
    unfolding wp by (simp_all add: select_ok_def Let_def copy_sets_def)
  show "sorted_wrt (<) (map fst (fd_list s1))"
    using srt by (simp add: wp)
  show keys: "t_fds_r s1 \<union> t_fds_w s1 \<union> t_fds_e s1 \<subseteq> set (map fst (fd_list s1))"
    using tsub sub unfolding wp(5) by blast
  show "n = int (card (t_fds_r s1) + card (t_fds_w s1) + card (t_fds_e s1))"
    by (rule n)
  show "finite (t_fds_r s1)" "finite (t_fds_w s1)" "finite (t_fds_e s1)"
    using tsub fin by (auto intro: finite_subset)
  from pos n have "t_fds_r s1 \<union> t_fds_w s1 \<union> t_fds_e s1 \<noteq> {}"
    by auto
  with keys have ne: "fd_list s1 \<noteq> []"
    by auto
  from srt have d: "distinct (map fst (fd_list s1))"
    unfolding wp(5) by (simp add: strict_sorted_iff)
  from getEvents_from [OF d _ ne, of "[]" "fd_list s1" j fd ev] wp(5,6)
  show "\<exists>fs s2. getEvents (length (ready_events s1) + j) fd ev s1 =
            Inr (map (\<lambda>p. (True, fst p, snd p)) (ready_events s1) @ fs, s2) \<and>
          length fs = j \<and> list_all (\<lambda>r. \<not> fst r) fs"
    by (simp add: ready_events_from)
qed


lemma select_ready_ok: "select_ok (select_ready R W E) s"
  by (simp add: select_ok_def select_call_def select_ready_def)

lemmas cycle_defs = wait_cycle_def ev_defs wait_def copy_sets_def select_call_def
  select_bound_def select_ready_def getEvent_def satisfied_def

text \<open>
  C2, as stated, fails: descriptor 5 is registered for reading and writing and is ready for
  both. \<open>select()\<close> counts two bits, \<open>wait\<close> returns 2, and \<open>getEvent\<close> yields the one
  descriptor once, then returns false.
\<close>

theorem wait_count_exceeds_yields_counterexample:
  "wait_cycle [Add 5 3] (select_ready {5} {5} {}) (Suc (Suc 0)) =
     Inr (2, [(True, 5, 3), (False, 5, 3)])"
  by (simp add: cycle_defs)

text \<open>
  C3, as stated, fails: descriptor 9 is registered before descriptor 5 and both are ready;
  \<open>getEvent\<close> yields 5 first.
\<close>

theorem getEvent_ascending_not_registration_counterexample:
  "wait_cycle [Add 9 1, Add 5 1] (select_ready {5, 9} {} {}) (Suc (Suc (Suc 0))) =
     Inr (2, [(True, 5, 1), (True, 9, 1), (False, 9, 1)])"
  by (simp add: cycle_defs)


lemma nat_sum3:
  fixes a b c ab abc i1 i2 :: nat
  assumes "a + b = ab + i1" and "ab + c = abc + i2"
  shows "abc \<le> a + b + c" and "abc = a + b + c \<longleftrightarrow> i1 = 0 \<and> i2 = 0"
  using assms by presburger+

lemma card_Un3:
  assumes "finite A" "finite B" "finite C"
  shows "card (A \<union> B \<union> C) \<le> card A + card B + card C"
    and "card (A \<union> B \<union> C) = card A + card B + card C \<longleftrightarrow>
           A \<inter> B = {} \<and> A \<inter> C = {} \<and> B \<inter> C = {}"
proof -
  from assms have ab: "card A + card B = card (A \<union> B) + card (A \<inter> B)"
    by (simp only: card_Un_Int)
  from assms have "finite (A \<union> B)"
    by simp
  from card_Un_Int [OF this assms(3)]
  have abc: "card (A \<union> B) + card C = card (A \<union> B \<union> C) + card ((A \<union> B) \<inter> C)" .
  from nat_sum3(1) [OF ab abc] show "card (A \<union> B \<union> C) \<le> card A + card B + card C" .
  from assms have z: "card (A \<inter> B) = 0 \<longleftrightarrow> A \<inter> B = {}"
    "card ((A \<union> B) \<inter> C) = 0 \<longleftrightarrow> (A \<union> B) \<inter> C = {}"
    by simp_all
  have "A \<inter> B = {} \<and> (A \<union> B) \<inter> C = {} \<longleftrightarrow> A \<inter> B = {} \<and> A \<inter> C = {} \<and> B \<inter> C = {}"
    by blast
  with nat_sum3(2) [OF ab abc] z
  show "card (A \<union> B \<union> C) = card A + card B + card C \<longleftrightarrow>
           A \<inter> B = {} \<and> A \<inter> C = {} \<and> B \<inter> C = {}"
    by simp
qed

text \<open>
  C2, amended. In a state reached by \<open>add\<close>, \<open>modify\<close> and \<open>remove\<close> calls, after a
  \<open>wait\<close> that returns \<open>n > 0\<close> from a \<open>select()\<close> that keeps the POSIX contract, the
  following \<open>getEvent\<close> calls return true once for each descriptor left in a working set,
  with its satisfied mask, and false from then on. \<open>n\<close> is the number of bits set in the
  three working sets, so the number of yields is at most \<open>n\<close>, and equal to \<open>n\<close> exactly
  when no descriptor is ready in two directions.
\<close>

theorem getEvent_yields_each_ready_once:
  assumes reach: "run_ops xs (EventSelect_new u) = Inr s"
    and ok: "select_ok select (copy_sets s)"
    and w: "wait select s = Inr (n, s1)" and pos: "0 < n"
  shows "(\<exists>fs s2. getEvents (length (ready_events s1) + j) fd ev s1 =
            Inr (map (\<lambda>p. (True, fst p, snd p)) (ready_events s1) @ fs, s2) \<and>
          length fs = j \<and> list_all (\<lambda>r. \<not> fst r) fs) \<and>
     distinct (map fst (ready_events s1)) \<and>
     set (map fst (ready_events s1)) = t_fds_r s1 \<union> t_fds_w s1 \<union> t_fds_e s1 \<and>
     list_all (\<lambda>p. snd p = satisfied s1 (fst p) \<and> snd p \<noteq> 0) (ready_events s1) \<and>
     n = int (card (t_fds_r s1) + card (t_fds_w s1) + card (t_fds_e s1)) \<and>
     int (length (ready_events s1)) \<le> n \<and>
     (int (length (ready_events s1)) = n \<longleftrightarrow>
        t_fds_r s1 \<inter> t_fds_w s1 = {} \<and> t_fds_r s1 \<inter> t_fds_e s1 = {} \<and>
        t_fds_w s1 \<inter> t_fds_e s1 = {})"
proof -
  note c = wait_then_getEvents [OF reach ok w pos]
  let ?R = "t_fds_r s1 \<union> t_fds_w s1 \<union> t_fds_e s1"
  from c(1) have d: "distinct (map fst (fd_list s1))"
    by (simp add: strict_sorted_iff)
  then have dist: "distinct (map fst (ready_events s1))"
    by (simp add: ready_events_from ready_keys)
  from c(2) have set: "set (map fst (ready_events s1)) = ?R"
    by (auto simp: ready_events_from ready_keys)
  from distinct_card [OF dist] have "card (set (map fst (ready_events s1))) = length (ready_events s1)"
    by simp
  with set have len: "length (ready_events s1) = card ?R"
    by simp
  note u3 = card_Un3 [OF c(4-6)]
  from len u3(1) c(3) have le: "int (length (ready_events s1)) \<le> n"
    by simp
  from c(3) have "int (length (ready_events s1)) = n \<longleftrightarrow>
      length (ready_events s1) = card (t_fds_r s1) + card (t_fds_w s1) + card (t_fds_e s1)"
    by linarith
  with len u3(2) have eq: "int (length (ready_events s1)) = n \<longleftrightarrow>
        t_fds_r s1 \<inter> t_fds_w s1 = {} \<and> t_fds_r s1 \<inter> t_fds_e s1 = {} \<and>
        t_fds_w s1 \<inter> t_fds_e s1 = {}"
    by simp
  have masks: "list_all (\<lambda>p. snd p = satisfied s1 (fst p) \<and> snd p \<noteq> 0) (ready_events s1)"
    unfolding ready_events_from by (rule ready_masks)
  show ?thesis
  proof (intro conjI)
    show "\<exists>fs s2. getEvents (length (ready_events s1) + j) fd ev s1 =
            Inr (map (\<lambda>p. (True, fst p, snd p)) (ready_events s1) @ fs, s2) \<and>
          length fs = j \<and> list_all (\<lambda>r. \<not> fst r) fs"
      by (rule c(7))
    show "distinct (map fst (ready_events s1))"
      by (rule dist)
    show "set (map fst (ready_events s1)) = ?R"
      by (rule set)
    show "list_all (\<lambda>p. snd p = satisfied s1 (fst p) \<and> snd p \<noteq> 0) (ready_events s1)"
      by (rule masks)
    show "n = int (card (t_fds_r s1) + card (t_fds_w s1) + card (t_fds_e s1))"
      by (rule c(3))
    show "int (length (ready_events s1)) \<le> n"
      by (rule le)
    show "int (length (ready_events s1)) = n \<longleftrightarrow>
        t_fds_r s1 \<inter> t_fds_w s1 = {} \<and> t_fds_r s1 \<inter> t_fds_e s1 = {} \<and>
        t_fds_w s1 \<inter> t_fds_e s1 = {}"
      by (rule eq)
  qed
qed

lemma getEvents_prefix:
  "getEvents (a + b) fd ev s = Inr (rs, s') \<Longrightarrow>
     \<exists>s''. getEvents a fd ev s = Inr (take a rs, s'')"
proof (induction a arbitrary: fd ev s rs)
  case 0
  then show ?case by simp
next
  case (Suc a)
  from Suc.prems obtain b1 fd1 ev1 s1 where g: "getEvent fd ev s = Inr (b1, fd1, ev1, s1)"
    by (cases "getEvent fd ev s") auto
  with Suc.prems obtain rs1 where r: "getEvents (a + b) fd1 ev1 s1 = Inr (rs1, s')"
    and rs: "rs = (b1, fd1, ev1) # rs1"
    by (cases "getEvents (a + b) fd1 ev1 s1") auto
  from Suc.IH [OF r] obtain s'' where "getEvents a fd1 ev1 s1 = Inr (take a rs1, s'')"
    by blast
  with g rs show ?case
    by simp
qed

text \<open>
  C3, amended. Under the same conditions, the descriptors that any number \<open>k\<close> of
  \<open>getEvent\<close> calls yield are the first \<open>k\<close> ready keys of \<open>fd_list\<close> in its order, which
  is ascending descriptor order, whatever the order of registration.
\<close>

theorem getEvent_yields_ascending:
  assumes reach: "run_ops xs (EventSelect_new u) = Inr s"
    and ok: "select_ok select (copy_sets s)"
    and w: "wait select s = Inr (n, s1)" and pos: "0 < n"
  shows "\<exists>rs s2. getEvents k fd ev s1 = Inr (rs, s2) \<and>
     map (\<lambda>r. fst (snd r)) (filter fst rs) =
       take k (filter (\<lambda>fd. fd \<in> t_fds_r s1 \<union> t_fds_w s1 \<union> t_fds_e s1) (map_keys (fd_list s))) \<and>
     sorted_wrt (<) (map (\<lambda>r. fst (snd r)) (filter fst rs))"
proof -
  note c = wait_then_getEvents [OF reach ok w pos]
  let ?ys = "ready_events s1"
  let ?T = "map (\<lambda>p. (True, fst p, snd p)) ?ys"
  from c(7) [of k fd ev] obtain fs s2 where
    g: "getEvents (length ?ys + k) fd ev s1 = Inr (?T @ fs, s2)"
    and fs: "list_all (\<lambda>r. \<not> fst r) fs"
    by blast
  from g have "getEvents (k + length ?ys) fd ev s1 = Inr (?T @ fs, s2)"
    by (simp add: add.commute)
  from getEvents_prefix [OF this] obtain s3 where
    gk: "getEvents k fd ev s1 = Inr (take k (?T @ fs), s3)"
    by blast
  have a: "filter fst (take k ?T) = take k ?T"
    by (rule filter_True) (auto dest!: in_set_takeD)
  from fs have b: "filter fst (take (k - length ?T) fs) = []"
    by (auto simp: filter_empty_conv list_all_iff dest!: in_set_takeD)
  have "filter fst (take k (?T @ fs)) = take k ?T"
    by (simp only: take_append filter_append a b append_Nil2)
  also have "map (\<lambda>r. fst (snd r)) (take k ?T) = take k (map fst ?ys)"
    by (simp add: take_map comp_def)
  finally have m: "map (\<lambda>r. fst (snd r)) (filter fst (take k (?T @ fs))) = take k (map fst ?ys)" .
  have keys: "map fst ?ys =
      filter (\<lambda>fd. fd \<in> t_fds_r s1 \<union> t_fds_w s1 \<union> t_fds_e s1) (map_keys (fd_list s))"
    using wait_positive(5) [OF w pos] by (simp add: ready_events_from ready_keys map_keys_def)
  from c(1) have srt: "sorted_wrt (<) (take k (map fst ?ys))"
    unfolding ready_events_from ready_keys
    by (intro sorted_wrt_take sorted_wrt_filter)
  show ?thesis
  proof (intro exI conjI)
    show "getEvents k fd ev s1 = Inr (take k (?T @ fs), s3)"
      by (rule gk)
    show "map (\<lambda>r. fst (snd r)) (filter fst (take k (?T @ fs))) =
        take k (filter (\<lambda>fd. fd \<in> t_fds_r s1 \<union> t_fds_w s1 \<union> t_fds_e s1) (map_keys (fd_list s)))"
      unfolding m keys ..
    show "sorted_wrt (<) (map (\<lambda>r. fst (snd r)) (filter fst (take k (?T @ fs))))"
      unfolding m by (rule srt)
  qed
qed


lemma demo_run:
  obtains s where "run_ops [Add 5 3, Add 9 1] (EventSelect_new zeroed) = Inr s"
    and "fd_list s = [(5, 3), (9, 1)]"
    and "fds_r s = {5, 9}" and "fds_w s = {5}" and "fds_e s = {}"
  by (simp add: ev_defs insert_commute)

lemma demo_wait:
  assumes "fd_list s = [(5, 3), (9, 1)]"
    and "fds_r s = {5, 9}" and "fds_w s = {5}" and "fds_e s = {}"
  obtains s1 where "wait (select_ready {5, 9} {5} {}) s = Inr (3, s1)"
    and "fd_list s1 = [(5, 3), (9, 1)]"
    and "t_fds_r s1 = {5, 9}" and "t_fds_w s1 = {5}" and "t_fds_e s1 = {}"
    and "ready_events s1 = [(5, 3), (9, 1)]"
proof -
  have res: "select_call (select_ready {5, 9} {5} {}) (copy_sets s) =
      \<lparr>sel_ret = 3, sel_errno = OtherErrno 0, sel_r = {5, 9}, sel_w = {5}, sel_e = {},
       sel_timeout = timeout_tv s\<rparr>"
    by (simp add: select_call_def copy_sets_def select_ready_def assms)
  then obtain s1 where w: "wait (select_ready {5, 9} {5} {}) s = Inr (3, s1)"
    by (simp add: wait_eq)
  note wp = wait_positive [OF w, unfolded res, simplified]
  have "ready_events s1 = [(5, 3), (9, 1)]"
    by (simp add: ready_events_def satisfied_def wp assms fSet_def event_read_def
        event_write_def event_error_def)
  with w wp assms that show ?thesis
    by simp
qed

text \<open>An instance: 5 is ready to read and write, 9 to read; \<open>wait\<close> returns 3 and two
  descriptors are yielded.\<close>

theorem getEvent_yields_each_ready_once_witness:
  "(case run_ops [Add 5 3, Add 9 1] (EventSelect_new zeroed) of
      Inl f \<Rightarrow> False
    | Inr s \<Rightarrow> select_ok (select_ready {5, 9} {5} {}) (copy_sets s) \<and>
        (case wait (select_ready {5, 9} {5} {}) s of
           Inl f \<Rightarrow> False
         | Inr (n, s1) \<Rightarrow> 0 < n \<and> n = 3 \<and> ready_events s1 = [(5, 3), (9, 1)] \<and>
             (\<exists>fs s2. getEvents 3 0 0 s1 = Inr ([(True, 5, 3), (True, 9, 1)] @ fs, s2) \<and>
                length fs = 1 \<and> list_all (\<lambda>r. \<not> fst r) fs) \<and>
             int (length (ready_events s1)) \<le> n))"
proof -
  obtain s where run: "run_ops [Add 5 3, Add 9 1] (EventSelect_new zeroed) = Inr s"
    and s: "fd_list s = [(5, 3), (9, 1)]" "fds_r s = {5, 9}" "fds_w s = {5}" "fds_e s = {}"
    by (rule demo_run)
  from s obtain s1 where w: "wait (select_ready {5, 9} {5} {}) s = Inr (3, s1)"
    and ys: "ready_events s1 = [(5, 3), (9, 1)]"
    by (rule demo_wait)
  have ok: "select_ok (select_ready {5, 9} {5} {}) (copy_sets s)"
    by (rule select_ready_ok)
  have pos: "(0::int) < 3"
    by simp
  have three: "length (ready_events s1) + 1 = 3"
    by (simp add: ys)
  note th = getEvent_yields_each_ready_once [OF run ok w pos, of 1 0 0, unfolded three]
  from th obtain fs s2 where
    g: "getEvents 3 0 0 s1 = Inr (map (\<lambda>p. (True, fst p, snd p)) (ready_events s1) @ fs, s2)"
    and fs: "length fs = 1" "list_all (\<lambda>r. \<not> fst r) fs"
    by blast
  from th have le: "int (length (ready_events s1)) \<le> 3"
    by blast
  from g have g': "getEvents 3 0 0 s1 = Inr ([(True, 5, 3), (True, 9, 1)] @ fs, s2)"
    by (simp add: ys)
  have "\<exists>fs s2. getEvents 3 0 0 s1 = Inr ([(True, 5, 3), (True, 9, 1)] @ fs, s2) \<and>
      length fs = 1 \<and> list_all (\<lambda>r. \<not> fst r) fs"
    using g' fs by blast
  with ok le ys show ?thesis
    unfolding run sum.case w prod.case by simp
qed

text \<open>An instance: the same cycle yields 5, then 9.\<close>

theorem getEvent_yields_ascending_witness:
  "(case run_ops [Add 5 3, Add 9 1] (EventSelect_new zeroed) of
      Inl f \<Rightarrow> False
    | Inr s \<Rightarrow> select_ok (select_ready {5, 9} {5} {}) (copy_sets s) \<and>
        (case wait (select_ready {5, 9} {5} {}) s of
           Inl f \<Rightarrow> False
         | Inr (n, s1) \<Rightarrow> 0 < n \<and>
             (\<exists>rs s2. getEvents 3 0 0 s1 = Inr (rs, s2) \<and>
                map (\<lambda>r. fst (snd r)) (filter fst rs) = [5, 9] \<and>
                sorted_wrt (<) (map (\<lambda>r. fst (snd r)) (filter fst rs)))))"
proof -
  obtain s where run: "run_ops [Add 5 3, Add 9 1] (EventSelect_new zeroed) = Inr s"
    and s: "fd_list s = [(5, 3), (9, 1)]" "fds_r s = {5, 9}" "fds_w s = {5}" "fds_e s = {}"
    by (rule demo_run)
  from s obtain s1 where w: "wait (select_ready {5, 9} {5} {}) s = Inr (3, s1)"
    and t: "t_fds_r s1 = {5, 9}" "t_fds_w s1 = {5}" "t_fds_e s1 = {}"
    by (rule demo_wait)
  have ok: "select_ok (select_ready {5, 9} {5} {}) (copy_sets s)"
    by (rule select_ready_ok)
  have pos: "(0::int) < 3"
    by simp
  have keys: "take 3 (filter (\<lambda>fd. fd \<in> t_fds_r s1 \<union> t_fds_w s1 \<union> t_fds_e s1)
      (map_keys (fd_list s))) = [5, 9]"
    by (simp add: t s map_keys_def)
  from getEvent_yields_ascending [OF run ok w pos, of 3 0 0, unfolded keys]
  have "\<exists>rs s2. getEvents 3 0 0 s1 = Inr (rs, s2) \<and>
      map (\<lambda>r. fst (snd r)) (filter fst rs) = [5, 9] \<and>
      sorted_wrt (<) (map (\<lambda>r. fst (snd r)) (filter fst rs))" .
  with ok show ?thesis
    unfolding run sum.case w prod.case by simp
qed

section \<open>Properties of messages\<close>

lemma Message_calls_frame:
  "m_type (foldl Message_apply m cs) = m_type m \<and>
   m_class (foldl Message_apply m cs) = m_class m \<and>
   m_refcount (foldl Message_apply m cs) = m_refcount m \<and>
   m_contextid (foldl Message_apply m cs) = foldl last_contextid (m_contextid m) cs"
proof (induction cs arbitrary: m)
  case Nil
  then show ?case by simp
next
  case (Cons c cs)
  show ?case
    by (cases c) (simp_all add: Cons.IH setContextId_def setUndone_def isUndoable_def)
qed

lemma not_undoable_never_undone:
  "\<not> cls_isUndoable (m_class m) \<Longrightarrow> m_undone (foldl Message_apply m cs) = m_undone m"
proof (induction cs arbitrary: m)
  case Nil
  then show ?case by simp
next
  case (Cons c cs)
  then show ?case
    by (cases c) (simp_all add: setContextId_def setUndone_def isUndoable_def)
qed

lemma Message_calls_undone:
  "m_undone (foldl Message_apply m cs) =
     (if cls_isUndoable (m_class m) then foldl last_undone (m_undone m) cs else m_undone m)"
proof (induction cs arbitrary: m)
  case Nil
  then show ?case by simp
next
  case (Cons c cs)
  show ?case
    by (cases c) (simp_all add: Cons.IH setContextId_def setUndone_def isUndoable_def)
qed

text \<open>
  C8, as stated, fails: \<open>setContextId\<close> is public and writes the context id.
\<close>

theorem setContextId_changes_context_counterexample:
  "contextId (Message_new MSG_CHAT 3 (base_class 0)) = 3 \<and>
   contextId (setContextId 7 (Message_new MSG_CHAT 3 (base_class 0))) = 7"
  by (simp add: contextId_def setContextId_def Message_new_def)

text \<open>
  C8, amended. Whatever public member functions are called on a message, its type tag, its
  class and its reference count stay as they are; its context id is the argument of the last
  \<open>setContextId\<close> call, or the one it had; its undone flag is the argument of the last
  \<open>setUndone\<close> call when its class is undoable, and the one it had otherwise.
\<close>

theorem type_tag_immutable:
  "Message_type (Message_calls cs m) = Message_type m \<and>
   m_class (Message_calls cs m) = m_class m \<and>
   m_refcount (Message_calls cs m) = m_refcount m \<and>
   contextId (Message_calls cs m) = foldl last_contextid (contextId m) cs \<and>
   isUndone (Message_calls cs m) =
     (if isUndoable m then foldl last_undone (isUndone m) cs else isUndone m)"
  using Message_calls_frame [of m cs] Message_calls_undone [of m cs]
  by (simp add: Message_calls_def Message_type_def contextId_def isUndone_def isUndoable_def)

text \<open>
  C7. On a message of a class that is not undoable, \<open>isUndone()\<close> is false after
  \<open>setUndone(true)\<close>, whatever was called on the message since its construction. On an
  undoable message, \<open>setUndone\<close> with the negated flag flips \<open>isUndone()\<close>, and doing it
  twice gives back the message as it was.
\<close>

theorem setUndone_respects_undoable:
  "(\<not> cls_isUndoable c \<longrightarrow>
      \<not> isUndone (setUndone True (Message_calls cs (Message_new t ctx c)))) \<and>
   (isUndoable m \<longrightarrow>
      isUndone (setUndone (\<not> isUndone m) m) = (\<not> isUndone m) \<and>
      setUndone (\<not> isUndone (setUndone (\<not> isUndone m) m)) (setUndone (\<not> isUndone m) m) = m)"
proof -
  have "\<not> isUndone (setUndone True (Message_calls cs (Message_new t ctx c)))"
    if "\<not> cls_isUndoable c"
  proof -
    from that have "\<not> cls_isUndoable (m_class (Message_new t ctx c))"
      by (simp add: Message_new_def)
    from not_undoable_never_undone [OF this, of cs] Message_calls_frame [of "Message_new t ctx c" cs] that
    show ?thesis
      by (simp add: Message_calls_def setUndone_def isUndoable_def isUndone_def Message_new_def)
  qed
  then show ?thesis
    by (simp add: setUndone_def isUndoable_def isUndone_def)
qed

text \<open>An instance: a chat message of the base class, and a pen move of an undoable
  class.\<close>

theorem setUndone_respects_undoable_witness:
  "\<not> cls_isUndoable (base_class 0) \<and>
   \<not> isUndone (setUndone True
       (Message_calls [SetUndone True, SetContextId 4] (Message_new MSG_CHAT 1 (base_class 0)))) \<and>
   isUndoable (Message_new MSG_PEN_MOVE 1 ((base_class 0)\<lparr>cls_isUndoable := True\<rparr>)) \<and>
   isUndone (setUndone True (Message_new MSG_PEN_MOVE 1 ((base_class 0)\<lparr>cls_isUndoable := True\<rparr>))) \<and>
   \<not> isUndone (setUndone False (setUndone True
       (Message_new MSG_PEN_MOVE 1 ((base_class 0)\<lparr>cls_isUndoable := True\<rparr>))))"
proof -
  let ?m = "Message_new MSG_PEN_MOVE 1 ((base_class 0)\<lparr>cls_isUndoable := True\<rparr>)"
  have a: "\<not> cls_isUndoable (base_class 0)"
    by (simp add: base_class_def)
  have b: "isUndoable ?m" and u: "\<not> isUndone ?m"
    by (simp_all add: isUndoable_def isUndone_def Message_new_def)
  note th = setUndone_respects_undoable
    [of "base_class 0" "[SetUndone True, SetContextId 4]" MSG_CHAT 1 ?m]
  from th a have c: "\<not> isUndone (setUndone True
       (Message_calls [SetUndone True, SetContextId 4] (Message_new MSG_CHAT 1 (base_class 0))))"
    by blast
  from th b have d0: "isUndone (setUndone (\<not> isUndone ?m) ?m) = (\<not> isUndone ?m)"
    and e0: "setUndone (\<not> isUndone (setUndone (\<not> isUndone ?m) ?m))
        (setUndone (\<not> isUndone ?m) ?m) = ?m"
    by blast+
  from d0 u have d: "isUndone (setUndone True ?m)"
    by simp
  from e0 u d have "setUndone False (setUndone True ?m) = ?m"
    by simp
  with u have "\<not> isUndone (setUndone False (setUndone True ?m))"
    by simp
  with a b c d show ?thesis
    by simp
qed

section \<open>Properties of the reference count\<close>

lemma holders_finite: "finite (dom (handles st)) \<Longrightarrow> finite (holders st p)"
  by (rule finite_subset [of _ "dom (handles st)"]) (auto simp: holders_def)

lemma rc_inv_None: "rc_inv st \<Longrightarrow> heap st p = None \<Longrightarrow> holders st p = {}"
  unfolding rc_inv_def by (erule conjE, erule_tac x = p in allE) simp

lemma rc_inv_Some:
  "rc_inv st \<Longrightarrow> heap st p = Some m \<Longrightarrow> m_refcount m = int (card (holders st p))"
  unfolding rc_inv_def by (erule conjE, erule_tac x = p in allE) simp

lemma rc_inv_finite: "rc_inv st \<Longrightarrow> finite (holders st p)"
  by (simp add: rc_inv_def holders_finite)

lemma rc_invI:
  assumes "finite (dom (handles st))"
    and "\<And>p. heap st p = None \<Longrightarrow> holders st p = {}"
    and "\<And>p m. heap st p = Some m \<Longrightarrow> m_refcount m = int (card (holders st p))"
  shows "rc_inv st"
  unfolding rc_inv_def using assms by (auto split: option.splits)

lemma holders_upd:
  "handles st' = (handles st)(h \<mapsto> q) \<Longrightarrow>
     holders st' p = (if p = q then insert h (holders st p) else holders st p - {h})"
  by (auto simp: holders_def)

lemma holders_del:
  "handles st' = (handles st)(h := None) \<Longrightarrow> holders st' p = holders st p - {h}"
  by (auto simp: holders_def)

lemma holders_same: "handles st' = handles st \<Longrightarrow> holders st' p = holders st p"
  by (simp add: holders_def)

lemma holders_other: "handles st h = Some p \<Longrightarrow> q \<noteq> p \<Longrightarrow> holders st q - {h} = holders st q"
  by (auto simp: holders_def)

lemma holders_fresh: "handles st h = None \<Longrightarrow> h \<notin> holders st p"
  by (simp add: holders_def)

lemma held:
  assumes inv: "rc_inv st" and h: "handles st h = Some p"
  obtains m where "heap st p = Some m" and "m_refcount m = int (card (holders st p))"
    and "0 < card (holders st p)"
proof -
  from h have mem: "h \<in> holders st p"
    by (simp add: holders_def)
  with rc_inv_finite [OF inv, of p] have pos: "0 < card (holders st p)"
    by (auto simp: card_gt_0_iff)
  from mem rc_inv_None [OF inv, of p] obtain m where m: "heap st p = Some m"
    by (cases "heap st p") auto
  from rc_inv_Some [OF inv m] m pos that show ?thesis
    by blast
qed

lemma release_held:
  assumes inv: "rc_inv st" and h: "handles st h = Some p"
  obtains m where "heap st p = Some m"
    and "release p st =
      Inr (if card (holders st p) = 1
           then st\<lparr>heap := (heap st)(p := None), deleted := deleted st @ [p]\<rparr>
           else st\<lparr>heap := (heap st)(p \<mapsto> m\<lparr>m_refcount := int (card (holders st p)) - 1\<rparr>)\<rparr>)"
proof -
  from inv h obtain m where m: "heap st p = Some m"
    and rc: "m_refcount m = int (card (holders st p))" and pos: "0 < card (holders st p)"
    by (rule held)
  from m rc pos have "release p st =
      Inr (if card (holders st p) = 1
           then st\<lparr>heap := (heap st)(p := None), deleted := deleted st @ [p]\<rparr>
           else st\<lparr>heap := (heap st)(p \<mapsto> m\<lparr>m_refcount := int (card (holders st p)) - 1\<rparr>)\<rparr>)"
    by (simp add: release_def)
  with m that show ?thesis
    by blast
qed


lemma card_one_member: "finite A \<Longrightarrow> card A = 1 \<Longrightarrow> h \<in> A \<Longrightarrow> A - {h} = {}"
  by (auto simp: card_1_singleton_iff)

lemma card_remove_member:
  assumes "finite A" and "h \<in> A"
  shows "int (card (A - {h})) = int (card A) - 1"
proof -
  from assms have "0 < card A"
    by (auto simp: card_gt_0_iff)
  moreover from assms(2) have "card (A - {h}) = card A - 1"
    by (rule card_Diff_singleton)
  ultimately show ?thesis
    by linarith
qed

lemma card_add_fresh: "finite A \<Longrightarrow> h \<notin> A \<Longrightarrow> int (card (insert h A)) = int (card A) + 1"
  by simp

lemma destroy_held:
  assumes inv: "rc_inv st" and h: "handles st h = Some p"
  shows "\<exists>st'. MessagePtr_destroy h st = Inr st' \<and> rc_inv st' \<and>
      handles st' = (handles st)(h := None) \<and>
      (if card (holders st p) = 1
       then heap st' p = None \<and> deleted st' = deleted st @ [p]
       else deleted st' = deleted st)"
proof -
  let ?H = "holders st p"
  from inv h obtain m where m: "heap st p = Some m"
    and rel: "release p st =
      Inr (if card ?H = 1
           then st\<lparr>heap := (heap st)(p := None), deleted := deleted st @ [p]\<rparr>
           else st\<lparr>heap := (heap st)(p \<mapsto> m\<lparr>m_refcount := int (card ?H) - 1\<rparr>)\<rparr>)"
    by (rule release_held)
  from h have mem: "h \<in> ?H"
    by (simp add: holders_def)
  note fin = rc_inv_finite [OF inv]
  from inv have findom: "finite (dom (handles st))"
    by (simp add: rc_inv_def)
  define st' where "st' =
      (if card ?H = 1
       then st\<lparr>heap := (heap st)(p := None), deleted := deleted st @ [p],
               handles := (handles st)(h := None)\<rparr>
       else st\<lparr>heap := (heap st)(p \<mapsto> m\<lparr>m_refcount := int (card ?H) - 1\<rparr>),
               handles := (handles st)(h := None)\<rparr>)"
  have d: "MessagePtr_destroy h st = Inr st'"
    by (simp add: MessagePtr_destroy_def h rel st'_def)
  have hs: "handles st' = (handles st)(h := None)"
    by (simp add: st'_def)
  note hold = holders_del [OF hs]
  have hp: "heap st' p = (if card ?H = 1 then None
      else Some (m\<lparr>m_refcount := int (card ?H) - 1\<rparr>))"
    by (simp add: st'_def)
  have ho: "heap st' q = heap st q" if "q \<noteq> p" for q
    using that by (simp add: st'_def)
  have "rc_inv st'"
  proof (rule rc_invI)
    show "finite (dom (handles st'))"
      using findom by (simp add: hs)
  next
    fix q
    assume none: "heap st' q = None"
    show "holders st' q = {}"
    proof (cases "q = p")
      case True
      with none hp have "card ?H = 1"
        by (simp split: if_splits)
      with fin [of p] mem show ?thesis
        by (simp add: hold True card_one_member)
    next
      case False
      with none ho have "heap st q = None"
        by simp
      with inv have "holders st q = {}"
        by (rule rc_inv_None)
      then show ?thesis
        by (simp add: hold)
    qed
  next
    fix q m'
    assume some: "heap st' q = Some m'"
    show "m_refcount m' = int (card (holders st' q))"
    proof (cases "q = p")
      case True
      with some hp have "m_refcount m' = int (card ?H) - 1"
        by (auto split: if_splits)
      with card_remove_member [OF fin [of p] mem] show ?thesis
        unfolding hold True by linarith
    next
      case False
      with some ho have "heap st q = Some m'"
        by simp
      with inv have "m_refcount m' = int (card (holders st q))"
        by (rule rc_inv_Some)
      with holders_other [OF h False] show ?thesis
        by (simp add: hold)
    qed
  qed
  moreover have "if card ?H = 1
       then heap st' p = None \<and> deleted st' = deleted st @ [p]
       else deleted st' = deleted st"
    by (simp add: st'_def)
  ultimately show ?thesis
    using d hs by blast
qed


lemma rc_inv_share:
  assumes inv: "rc_inv st" and fresh: "handles st h = None" and m: "heap st q = Some m"
  shows "rc_inv (st\<lparr>heap := (heap st)(q \<mapsto> m\<lparr>m_refcount := m_refcount m + 1\<rparr>),
                    handles := (handles st)(h \<mapsto> q)\<rparr>)"
    (is "rc_inv ?st'")
proof (rule rc_invI)
  have hs: "handles ?st' = (handles st)(h \<mapsto> q)"
    by simp
  note hold = holders_upd [OF hs]
  note nothere = holders_fresh [OF fresh]
  from inv show "finite (dom (handles ?st'))"
    by (simp add: rc_inv_def)
  show "holders ?st' a = {}" if "heap ?st' a = None" for a
  proof -
    from that have "a \<noteq> q" and "heap st a = None"
      by (auto split: if_splits)
    moreover have "holders ?st' a = holders st a - {h}"
      using \<open>a \<noteq> q\<close> by (simp add: hold)
    ultimately show ?thesis
      using rc_inv_None [OF inv, of a] by simp
  qed
  show "m_refcount m' = int (card (holders ?st' a))" if "heap ?st' a = Some m'" for a m'
  proof (cases "a = q")
    case True
    with that have "m_refcount m' = m_refcount m + 1"
      by auto
    moreover have "holders ?st' a = insert h (holders st q)"
      by (simp add: hold True)
    ultimately show ?thesis
      using rc_inv_Some [OF inv m] card_add_fresh [OF rc_inv_finite [OF inv, of q] nothere [of q]]
      by simp
  next
    case False
    with that have "heap st a = Some m'"
      by simp
    moreover have "holders ?st' a = holders st a"
      using nothere [of a] False by (simp add: hold)
    ultimately show ?thesis
      using inv by (simp add: rc_inv_Some)
  qed
qed

lemma alloc_rc_inv:
  assumes inv: "rc_inv st" and a: "Message_alloc p t ctx c st = Inr st'"
  shows "rc_inv st'"
proof -
  from a have free: "heap st p = None"
    and st': "st' = st\<lparr>heap := (heap st)(p \<mapsto> Message_new t ctx c)\<rparr>"
    by (auto simp: Message_alloc_def split: if_splits)
  have hs: "handles st' = handles st"
    by (simp add: st')
  note hold = holders_same [OF hs]
  show ?thesis
  proof (rule rc_invI)
    from inv show "finite (dom (handles st'))"
      by (simp add: hs rc_inv_def)
    show "holders st' a = {}" if "heap st' a = None" for a
    proof -
      from that have "heap st a = None"
        by (auto simp: st' split: if_splits)
      with inv show ?thesis
        unfolding hold by (rule rc_inv_None)
    qed
    show "m_refcount m = int (card (holders st' a))" if "heap st' a = Some m" for a m
    proof (cases "a = p")
      case True
      with that have "m_refcount m = 0"
        by (auto simp: st' Message_new_def)
      with rc_inv_None [OF inv free] show ?thesis
        by (simp add: hold True)
    next
      case False
      with that have "heap st a = Some m"
        by (simp add: st')
      with inv show ?thesis
        unfolding hold by (rule rc_inv_Some)
    qed
  qed
qed

lemma adopt_rc_inv:
  assumes inv: "rc_inv st" and a: "MessagePtr_new h msg st = Inr st'"
  shows "rc_inv st'"
proof -
  from a have fresh: "handles st h = None"
    by (auto simp: MessagePtr_new_def split: if_splits)
  from a fresh obtain m where m: "heap st msg = Some m"
    and st': "st' = st\<lparr>heap := (heap st)(msg \<mapsto> m\<lparr>m_refcount := m_refcount m + 1\<rparr>),
                       handles := (handles st)(h \<mapsto> msg)\<rparr>"
    by (auto simp: MessagePtr_new_def split: if_splits option.splits)
  show ?thesis
    unfolding st' using inv fresh m by (rule rc_inv_share)
qed

lemma copy_rc_inv:
  assumes inv: "rc_inv st" and a: "MessagePtr_copy h ptr st = Inr st'"
  shows "rc_inv st'"
proof -
  from a have fresh: "handles st h = None"
    by (auto simp: MessagePtr_copy_def split: if_splits)
  from a fresh obtain p m where m: "heap st p = Some m"
    and st': "st' = st\<lparr>heap := (heap st)(p \<mapsto> m\<lparr>m_refcount := m_refcount m + 1\<rparr>),
                       handles := (handles st)(h \<mapsto> p)\<rparr>"
    by (auto simp: MessagePtr_copy_def split: if_splits option.splits)
  show ?thesis
    unfolding st' using inv fresh m by (rule rc_inv_share)
qed

lemma destroy_rc_inv:
  assumes inv: "rc_inv st" and a: "MessagePtr_destroy h st = Inr st'"
  shows "rc_inv st'"
proof -
  from a obtain p where "handles st h = Some p"
    by (auto simp: MessagePtr_destroy_def split: option.splits)
  from destroy_held [OF inv this] a show ?thesis
    by auto
qed

lemma assign_as_destroy_copy:
  assumes "handles st h = Some p" and "handles st msg = Some q" and "q \<noteq> p"
  shows "MessagePtr_assign h msg st =
     (case MessagePtr_destroy h st of Inl f \<Rightarrow> Inl f | Inr st1 \<Rightarrow> MessagePtr_copy h msg st1)"
proof (cases "release p st")
  case (Inl f)
  with assms show ?thesis
    by (simp add: MessagePtr_assign_def MessagePtr_destroy_def)
next
  case (Inr st1)
  then have hs: "handles st1 = handles st"
    by (auto simp: release_def split: option.splits if_splits)
  from assms have "msg \<noteq> h"
    by auto
  with Inr assms show ?thesis
    by (auto simp: MessagePtr_assign_def MessagePtr_destroy_def MessagePtr_copy_def hs
        split: option.splits)
qed

lemma assign_rc_inv:
  assumes inv: "rc_inv st" and a: "MessagePtr_assign h msg st = Inr st'"
  shows "rc_inv st'"
proof -
  from a obtain p q where h: "handles st h = Some p" and msg: "handles st msg = Some q"
    by (auto simp: MessagePtr_assign_def split: option.splits)
  show ?thesis
  proof (cases "q = p")
    case True
    with a h msg inv show ?thesis
      by (simp add: MessagePtr_assign_def)
  next
    case False
    from a obtain st1 where d: "MessagePtr_destroy h st = Inr st1"
      and c: "MessagePtr_copy h msg st1 = Inr st'"
      unfolding assign_as_destroy_copy [OF h msg False]
      by (cases "MessagePtr_destroy h st") simp_all
    from destroy_rc_inv [OF inv d] c show ?thesis
      by (rule copy_rc_inv)
  qed
qed

lemma ptr_step_rc_inv: "rc_inv st \<Longrightarrow> ptr_step x st = Inr st' \<Longrightarrow> rc_inv st'"
  by (cases x)
    (auto dest: alloc_rc_inv adopt_rc_inv copy_rc_inv assign_rc_inv destroy_rc_inv)

lemma ptr_run_rc_inv: "rc_inv st \<Longrightarrow> ptr_run xs st = Inr st' \<Longrightarrow> rc_inv st'"
proof (induction xs arbitrary: st)
  case Nil
  then show ?case by simp
next
  case (Cons x xs)
  from Cons.prems(2) obtain st1 where s1: "ptr_step x st = Inr st1"
    and rest: "ptr_run xs st1 = Inr st'"
    by (cases "ptr_step x st") simp_all
  from ptr_step_rc_inv [OF Cons.prems(1) s1] rest show ?case
    by (rule Cons.IH)
qed

lemma empty_store_rc_inv: "rc_inv empty_store"
  by (simp add: rc_inv_def empty_store_def holders_def)


lemma destroy_many:
  assumes "rc_inv st" and "distinct hs" and "set hs \<subseteq> holders st p"
  shows "\<exists>st'. ptr_run (map Destroy hs) st = Inr st' \<and> rc_inv st' \<and>
      holders st' p = holders st p - set hs \<and>
      (if hs \<noteq> [] \<and> holders st' p = {}
       then heap st' p = None \<and> deleted st' = deleted st @ [p]
       else deleted st' = deleted st)"
  using assms
proof (induction hs arbitrary: st)
  case Nil
  then show ?case by simp
next
  case (Cons h hs)
  from Cons.prems(3) have h: "handles st h = Some p"
    by (simp add: holders_def)
  then have mem: "h \<in> holders st p"
    by (simp add: holders_def)
  note fin = rc_inv_finite [OF Cons.prems(1), of p]
  from destroy_held [OF Cons.prems(1) h] obtain st1 where
    d: "MessagePtr_destroy h st = Inr st1" and inv1: "rc_inv st1"
    and hs1: "handles st1 = (handles st)(h := None)"
    and del1: "if card (holders st p) = 1
       then heap st1 p = None \<and> deleted st1 = deleted st @ [p]
       else deleted st1 = deleted st"
    by blast
  have hold1: "holders st1 p = holders st p - {h}"
    by (rule holders_del [OF hs1])
  from Cons.prems(2,3) have sub1: "set hs \<subseteq> holders st1 p" and dist1: "distinct hs"
    by (auto simp: hold1)
  from Cons.IH [OF inv1 dist1 sub1] obtain st' where
    run: "ptr_run (map Destroy hs) st1 = Inr st'" and inv': "rc_inv st'"
    and hold': "holders st' p = holders st1 p - set hs"
    and del': "if hs \<noteq> [] \<and> holders st' p = {}
       then heap st' p = None \<and> deleted st' = deleted st1 @ [p]
       else deleted st' = deleted st1"
    by blast
  have run': "ptr_run (map Destroy (h # hs)) st = Inr st'"
    by (simp add: d run)
  have hold: "holders st' p = holders st p - set (h # hs)"
    unfolding hold' hold1 by auto
  have "if holders st' p = {}
       then heap st' p = None \<and> deleted st' = deleted st @ [p]
       else deleted st' = deleted st"
  proof (cases "card (holders st p) = 1")
    case True
    from card_one_member [OF fin True mem] have "holders st1 p = {}"
      unfolding hold1 .
    with sub1 have "hs = []"
      by simp
    with run have "st' = st1"
      by simp
    with True del1 \<open>holders st1 p = {}\<close> show ?thesis
      by simp
  next
    case False
    with del1 have same: "deleted st1 = deleted st"
      by simp
    from False fin mem have ne: "holders st1 p \<noteq> {}"
      unfolding hold1 by (auto simp: card_1_singleton_iff dest: subset_singletonD)
    show ?thesis
    proof (cases "hs = []")
      case True
      with run have "st' = st1"
        by simp
      with ne same show ?thesis
        by simp
    next
      case False
      with del' same show ?thesis
        by (simp split: if_splits)
    qed
  qed
  with run' inv' hold show ?case
    by simp
qed

lemma take_drop_set:
  "distinct hs \<Longrightarrow> set hs - set (take k hs) = set (drop k hs)"
proof -
  assume "distinct hs"
  then have "distinct (take k hs @ drop k hs)"
    by simp
  then have "set (take k hs) \<inter> set (drop k hs) = {}"
    by (simp only: distinct_append)
  moreover have "set hs = set (take k hs) \<union> set (drop k hs)"
    by (simp only: set_append [symmetric] append_take_drop_id)
  ultimately show ?thesis
    by blast
qed

text \<open>The handles of one message, destroyed in any order.\<close>

lemma destroy_in_any_order:
  assumes reach: "ptr_run ops empty_store = Inr st"
    and dist: "distinct hs" and all: "set hs = holders st p"
    and ne: "hs \<noteq> []" and k: "k \<le> length hs"
  shows "refcount_at st p = Some (int (length hs)) \<and>
     isl (MessagePtr_new h p st) \<and>
     (\<exists>st'. ptr_run (map Destroy (take k hs)) st = Inr st' \<and>
        holders st' p = set (drop k hs) \<and>
        (if k < length hs
         then refcount_at st' p = Some (int (length hs) - int k) \<and> deleted st' = deleted st
         else refcount_at st' p = None \<and> deleted st' = deleted st @ [p]))"
proof -
  from empty_store_rc_inv reach have inv: "rc_inv st"
    by (rule ptr_run_rc_inv)
  from dist all have card: "card (holders st p) = length hs"
    by (simp add: distinct_card [symmetric])
  from ne all have "holders st p \<noteq> {}"
    by auto
  with rc_inv_None [OF inv, of p] obtain m where m: "heap st p = Some m"
    by (cases "heap st p") auto
  from rc_inv_Some [OF inv m] card m have start: "refcount_at st p = Some (int (length hs))"
    by (simp add: refcount_at_def)
  from rc_inv_Some [OF inv m] card ne have "m_refcount m \<noteq> 0"
    by simp
  with m have again: "isl (MessagePtr_new h p st)"
    by (simp add: MessagePtr_new_def)
  from dist have dk: "distinct (take k hs)"
    by simp
  from all have sk: "set (take k hs) \<subseteq> holders st p"
    by (auto dest: in_set_takeD)
  from destroy_many [OF inv dk sk] obtain st' where
    run: "ptr_run (map Destroy (take k hs)) st = Inr st'" and inv': "rc_inv st'"
    and hold0: "holders st' p = holders st p - set (take k hs)"
    and del: "if take k hs \<noteq> [] \<and> holders st' p = {}
       then heap st' p = None \<and> deleted st' = deleted st @ [p]
       else deleted st' = deleted st"
    by blast
  from hold0 have hold: "holders st' p = set (drop k hs)"
    unfolding all [symmetric] by (simp add: take_drop_set [OF dist])
  have "if k < length hs
         then refcount_at st' p = Some (int (length hs) - int k) \<and> deleted st' = deleted st
         else refcount_at st' p = None \<and> deleted st' = deleted st @ [p]"
  proof (cases "k < length hs")
    case True
    then have "drop k hs \<noteq> []"
      by simp
    with hold have nonempty: "holders st' p \<noteq> {}"
      by simp
    with rc_inv_None [OF inv', of p] obtain m' where m': "heap st' p = Some m'"
      by (cases "heap st' p") auto
    from dist have "card (set (drop k hs)) = length hs - k"
      by (simp add: distinct_card)
    with rc_inv_Some [OF inv' m'] hold True have "m_refcount m' = int (length hs) - int k"
      by simp
    with m' nonempty del True show ?thesis
      by (simp add: refcount_at_def)
  next
    case False
    with k have "k = length hs"
      by simp
    with ne hold have "take k hs \<noteq> [] \<and> holders st' p = {}"
      by simp
    with del False show ?thesis
      by (simp add: refcount_at_def)
  qed
  with start again run hold show ?thesis
    by blast
qed


lemmas ptr_defs = empty_store_def Message_alloc_def MessagePtr_new_def MessagePtr_copy_def
  MessagePtr_destroy_def MessagePtr_assign_def release_def Message_new_def INT_MAX_def

lemma release_handles: "release p st = Inr st' \<Longrightarrow> handles st' = handles st"
  by (auto simp: release_def split: option.splits if_splits)

lemma release_other: "release q st = Inr st' \<Longrightarrow> p \<noteq> q \<Longrightarrow> heap st' p = heap st p"
  by (auto simp: release_def split: option.splits if_splits)

lemma ptr_step_track:
  assumes "ptr_step x st = Inr st'"
  shows "handles st' = track (handles st) x"
proof (cases x)
  case (New p t ctx c)
  with assms show ?thesis
    by (auto simp: Message_alloc_def split: if_splits)
next
  case (Adopt h msg)
  with assms show ?thesis
    by (auto simp: MessagePtr_new_def split: if_splits option.splits)
next
  case (Copy h ptr)
  with assms show ?thesis
    by (auto simp: MessagePtr_copy_def split: if_splits option.splits)
next
  case (Assign h msg)
  with assms have a: "MessagePtr_assign h msg st = Inr st'"
    by simp
  then obtain p q where h: "handles st h = Some p" and msg: "handles st msg = Some q"
    by (auto simp: MessagePtr_assign_def split: option.splits)
  show ?thesis
  proof (cases "q = p")
    case True
    with a h msg have "st' = st"
      by (simp add: MessagePtr_assign_def)
    with h msg True show ?thesis
      by (simp add: Assign fun_upd_idem)
  next
    case False
    with a h msg obtain st1 where r: "release p st = Inr st1"
      by (cases "release p st") (auto simp: MessagePtr_assign_def)
    with a h msg False have "handles st' = (handles st1)(h \<mapsto> q)"
      by (auto simp: MessagePtr_assign_def split: option.splits if_splits)
    with release_handles [OF r] msg show ?thesis
      by (simp add: Assign)
  qed
next
  case (Destroy h)
  with assms have d: "MessagePtr_destroy h st = Inr st'"
    by simp
  then obtain p st1 where "handles st h = Some p" and r: "release p st = Inr st1"
    and "st' = st1\<lparr>handles := (handles st1)(h := None)\<rparr>"
    by (auto simp: MessagePtr_destroy_def split: option.splits sum.splits)
  with release_handles [OF r] show ?thesis
    by (simp add: Destroy)
qed

lemma ptr_run_track: "ptr_run xs st = Inr st' \<Longrightarrow> handles st' = foldl track (handles st) xs"
proof (induction xs arbitrary: st)
  case Nil
  then show ?case by simp
next
  case (Cons x xs)
  from Cons.prems obtain st1 where s1: "ptr_step x st = Inr st1"
    and rest: "ptr_run xs st1 = Inr st'"
    by (cases "ptr_step x st") simp_all
  from Cons.IH [OF rest] ptr_step_track [OF s1] show ?case
    by simp
qed

lemma reachable_targets: "ptr_run ops empty_store = Inr st \<Longrightarrow> handles st = targets ops"
  by (drule ptr_run_track) (simp add: targets_def empty_store_def)

lemma copy_increments:
  assumes inv: "rc_inv st" and g: "handles st g = None" and src: "handles st src = Some p"
    and room: "int (card (holders st p)) < INT_MAX"
  shows "\<exists>st1. MessagePtr_copy g src st = Inr st1 \<and>
      refcount_at st1 p = Some (int (card (holders st p)) + 1) \<and>
      handles st1 = (handles st)(g \<mapsto> p)"
proof -
  from inv src obtain m where m: "heap st p = Some m"
    and rc: "m_refcount m = int (card (holders st p))"
    by (rule held)
  with g src room show ?thesis
    by (simp add: MessagePtr_copy_def refcount_at_def)
qed

lemma assign_increments:
  assumes inv: "rc_inv st" and g: "handles st g = Some q" and src: "handles st src = Some p"
    and ne: "q \<noteq> p" and room: "int (card (holders st p)) < INT_MAX"
  shows "\<exists>st1. MessagePtr_assign g src st = Inr st1 \<and>
      refcount_at st1 p = Some (int (card (holders st p)) + 1) \<and>
      handles st1 = (handles st)(g \<mapsto> p)"
proof -
  from inv src obtain m where m: "heap st p = Some m"
    and rc: "m_refcount m = int (card (holders st p))"
    by (rule held)
  from inv g obtain mq where "heap st q = Some mq" and
    "release q st =
      Inr (if card (holders st q) = 1
           then st\<lparr>heap := (heap st)(q := None), deleted := deleted st @ [q]\<rparr>
           else st\<lparr>heap := (heap st)(q \<mapsto> mq\<lparr>m_refcount := int (card (holders st q)) - 1\<rparr>)\<rparr>)"
    by (rule release_held)
  then obtain st0 where r: "release q st = Inr st0"
    by blast
  from ne have ne': "p \<noteq> q"
    by simp
  from release_other [OF r ne'] m have m0: "heap st0 p = Some m"
    by simp
  note h0 = release_handles [OF r]
  from g src ne r m0 rc room h0 show ?thesis
    by (simp add: MessagePtr_assign_def refcount_at_def)
qed


lemma track_destroys:
  "foldl track T (map Destroy hs) = (\<lambda>h. if h \<in> set hs then None else T h)"
proof (induction hs arbitrary: T)
  case Nil
  then show ?case by simp
next
  case (Cons a hs)
  show ?case
    by (simp add: Cons.IH fun_eq_iff)
qed

text \<open>
  C1. In a store reached from the empty one by allocations, adoptions, copies, assignments
  and destructions that raise no fault, the handles point where the calls made them point: a
  handle constructed from the message, copied from one of its handles or assigned from one
  of them points to it. Let \<open>hs\<close> list, in any order, the \<open>N > 0\<close> handles that point to the
  message at \<open>p\<close>. Then the count of the message is \<open>N\<close>, and it cannot be adopted again. A
  copy of one of the handles into a new handle, and an assignment of one of them to a handle
  of another message, raise no fault and leave the count at \<open>N + 1\<close> (while it fits an
  \<open>int\<close>). Destroying the first \<open>k\<close> handles of \<open>hs\<close> raises no fault; after it exactly
  these handles are gone and the remaining ones are the holders; while \<open>k < N\<close> the message
  is alive with count \<open>N - k\<close> and nothing has been deleted; at \<open>k = N\<close> the message is gone
  and exactly one \<open>delete\<close>, of \<open>p\<close>, has been recorded.
\<close>

theorem last_handle_deletes_envelope:
  assumes reach: "ptr_run ops empty_store = Inr st"
    and dist: "distinct hs" and all: "set hs = {h. targets ops h = Some p}"
    and ne: "hs \<noteq> []" and k: "k \<le> length hs"
  shows "handles st = targets ops \<and>
     refcount_at st p = Some (int (length hs)) \<and>
     isl (MessagePtr_new h p st) \<and>
     (handles st g = None \<and> src \<in> set hs \<and> int (length hs) < INT_MAX \<longrightarrow>
        (\<exists>st1. MessagePtr_copy g src st = Inr st1 \<and>
           refcount_at st1 p = Some (int (length hs) + 1) \<and>
           handles st1 = (handles st)(g \<mapsto> p))) \<and>
     (handles st g = Some q \<and> q \<noteq> p \<and> src \<in> set hs \<and> int (length hs) < INT_MAX \<longrightarrow>
        (\<exists>st1. MessagePtr_assign g src st = Inr st1 \<and>
           refcount_at st1 p = Some (int (length hs) + 1) \<and>
           handles st1 = (handles st)(g \<mapsto> p))) \<and>
     (\<exists>st'. ptr_run (map Destroy (take k hs)) st = Inr st' \<and>
        handles st' = (\<lambda>h. if h \<in> set (take k hs) then None else handles st h) \<and>
        holders st' p = set (drop k hs) \<and>
        (if k < length hs
         then refcount_at st' p = Some (int (length hs) - int k) \<and> deleted st' = deleted st
         else refcount_at st' p = None \<and> deleted st' = deleted st @ [p]))"
proof -
  from empty_store_rc_inv reach have inv: "rc_inv st"
    by (rule ptr_run_rc_inv)
  note tg = reachable_targets [OF reach]
  from all have all': "set hs = holders st p"
    by (simp add: holders_def tg)
  from dist all' have card: "card (holders st p) = length hs"
    by (simp add: distinct_card [symmetric])
  note main = destroy_in_any_order [OF reach dist all' ne k, of h]
  have copy: "\<exists>st1. MessagePtr_copy g src st = Inr st1 \<and>
           refcount_at st1 p = Some (int (length hs) + 1) \<and>
           handles st1 = (handles st)(g \<mapsto> p)"
    if "handles st g = None" and "src \<in> set hs" and "int (length hs) < INT_MAX"
  proof -
    from that(2) all' have "handles st src = Some p"
      by (simp add: holders_def)
    from copy_increments [OF inv that(1) this] that(3) show ?thesis
      by (simp add: card)
  qed
  have assign: "\<exists>st1. MessagePtr_assign g src st = Inr st1 \<and>
           refcount_at st1 p = Some (int (length hs) + 1) \<and>
           handles st1 = (handles st)(g \<mapsto> p)"
    if "handles st g = Some q" and "q \<noteq> p" and "src \<in> set hs" and "int (length hs) < INT_MAX"
  proof -
    from that(3) all' have "handles st src = Some p"
      by (simp add: holders_def)
    from assign_increments [OF inv that(1) this that(2)] that(4) show ?thesis
      by (simp add: card)
  qed
  from main obtain st' where run: "ptr_run (map Destroy (take k hs)) st = Inr st'"
    and hold: "holders st' p = set (drop k hs)"
    and fin: "if k < length hs
         then refcount_at st' p = Some (int (length hs) - int k) \<and> deleted st' = deleted st
         else refcount_at st' p = None \<and> deleted st' = deleted st @ [p]"
    by blast
  from ptr_run_track [OF run]
  have "handles st' = (\<lambda>h. if h \<in> set (take k hs) then None else handles st h)"
    by (simp only: track_destroys)
  with run hold fin
  have last: "\<exists>st'. ptr_run (map Destroy (take k hs)) st = Inr st' \<and>
        handles st' = (\<lambda>h. if h \<in> set (take k hs) then None else handles st h) \<and>
        holders st' p = set (drop k hs) \<and>
        (if k < length hs
         then refcount_at st' p = Some (int (length hs) - int k) \<and> deleted st' = deleted st
         else refcount_at st' p = None \<and> deleted st' = deleted st @ [p])"
    by blast
  from main have "refcount_at st p = Some (int (length hs))" and "isl (MessagePtr_new h p st)"
    by blast+
  with tg copy assign last show ?thesis
    by blast
qed



text \<open>An instance: three messages; the first is adopted by handle 10, copied into 11 and
  assigned to 20, which held the second message alone. The three handles are destroyed in
  another order than they were made.\<close>

theorem last_handle_deletes_envelope_witness:
  "set [20, 11, 10] =
     {h. targets [New 1 MSG_CHAT 0 (base_class 0), New 2 MSG_CHAT 0 (base_class 0),
           New 3 MSG_CHAT 0 (base_class 0), Adopt 10 1, Adopt 20 2, Adopt 30 3,
           Copy 11 10, Assign 20 11] h = Some 1} \<and>
   (case ptr_run [New 1 MSG_CHAT 0 (base_class 0), New 2 MSG_CHAT 0 (base_class 0),
           New 3 MSG_CHAT 0 (base_class 0), Adopt 10 1, Adopt 20 2, Adopt 30 3,
           Copy 11 10, Assign 20 11] empty_store of
      Inl f \<Rightarrow> False
    | Inr st \<Rightarrow> refcount_at st 1 = Some 3 \<and> deleted st = [2] \<and>
        map_sum id (\<lambda>s. (refcount_at s 1, deleted s))
          (ptr_run (map Destroy (take 2 [20, 11, 10])) st) = Inr (Some 1, [2]) \<and>
        map_sum id (\<lambda>s. (refcount_at s 1, deleted s))
          (ptr_run (map Destroy (take 3 [20, 11, 10])) st) = Inr (None, [2, 1]) \<and>
        map_sum id (\<lambda>s. refcount_at s 1) (MessagePtr_copy 40 11 st) = Inr (Some 4) \<and>
        map_sum id (\<lambda>s. refcount_at s 1) (MessagePtr_assign 30 10 st) = Inr (Some 4))"
proof -
  let ?hs = "[20, 11, 10] :: handle list"
  let ?ops = "[New 1 MSG_CHAT 0 (base_class 0), New 2 MSG_CHAT 0 (base_class 0),
           New 3 MSG_CHAT 0 (base_class 0), Adopt 10 1, Adopt 20 2, Adopt 30 3,
           Copy 11 10, Assign 20 11]"
  obtain st where run: "ptr_run ?ops empty_store = Inr st" and del: "deleted st = [2]"
    by (simp add: ptr_defs)
  have all: "set ?hs = {h. targets ?ops h = Some 1}"
    by (auto simp: targets_def split: if_splits)
  have g40: "targets ?ops 40 = None" and g30: "targets ?ops 30 = Some 3"
    by (simp_all add: targets_def)
  have dist: "distinct ?hs" and ne: "?hs \<noteq> []"
    and k2: "2 \<le> length ?hs" and k3: "3 \<le> length ?hs"
    and room: "int (length ?hs) < INT_MAX"
    and src: "11 \<in> set ?hs" "10 \<in> set ?hs"
    by (simp_all add: INT_MAX_def)
  note th2 = last_handle_deletes_envelope
    [where h = 0 and g = 40 and src = 11 and q = 0, OF run dist all ne k2]
  note th3 = last_handle_deletes_envelope
    [where h = 0 and g = 30 and src = 10 and q = 3, OF run dist all ne k3]
  from th2 have tg: "handles st = targets ?ops" and start: "refcount_at st 1 = Some 3"
    by simp_all
  from th2 obtain st2 where r2: "ptr_run (map Destroy (take 2 ?hs)) st = Inr st2"
    and c2: "refcount_at st2 1 = Some 1" "deleted st2 = deleted st"
    by auto
  from th3 obtain st3 where r3: "ptr_run (map Destroy (take 3 ?hs)) st = Inr st3"
    and c3: "refcount_at st3 1 = None" "deleted st3 = deleted st @ [1]"
    by auto
  from tg g40 g30 have h40: "handles st 40 = None" and h30: "handles st 30 = Some 3"
    by simp_all
  have ne31: "(3::addr) \<noteq> 1"
    by simp
  from th2 h40 src(1) room obtain st4 where r4: "MessagePtr_copy 40 11 st = Inr st4"
    and c4: "refcount_at st4 1 = Some (int (length ?hs) + 1)"
    by blast
  from th3 h30 ne31 src(2) room obtain st5 where r5: "MessagePtr_assign 30 10 st = Inr st5"
    and c5: "refcount_at st5 1 = Some (int (length ?hs) + 1)"
    by blast
  show ?thesis
    unfolding run sum.case r2 r3 r4 r5 using all start del c2 c3 c4 c5 by simp
qed

end
